theory Spec2Isabelle
  imports Complex_Main
begin

section \<open>JavaScript numbers\<close>

text \<open>
  The chart page computes with JavaScript numbers, that is IEEE 754 binary64 values.
  A finite double is represented by the rational it denotes; the two zeros are one value
  (the page never tells them apart: \<open>-0 || 0\<close> is \<open>0\<close>, and both print as \<open>0\<close>).
  Arithmetic rounds to the nearest double, ties to even, and overflows to an infinity.
\<close>

datatype jsnum = Fin rat | PInf | NInf | NaN

function ndigits :: "int \<Rightarrow> int \<Rightarrow> int" where
  "ndigits b x = (if 0 < x \<and> 1 < b then ndigits b (x div b) + 1 else 0)"
  by pat_completeness auto
termination
  by (relation "measure (\<lambda>(b, x). nat x)") (auto simp: int_div_less_self)

declare ndigits.simps [simp del]

text \<open>\<open>ipow b e\<close> is \<open>b\<^sup>e\<close> for an integer exponent, by repeated squaring.\<close>

function ipow :: "rat \<Rightarrow> int \<Rightarrow> rat" where
  "ipow b e = (if e < 0 then 1 / ipow b (- e)
               else if e = 0 then 1
               else if even e then (let h = ipow b (e div 2) in h * h)
               else b * ipow b (e - 1))"
  by pat_completeness auto
termination
  by (relation "measure (\<lambda>(b, e). nat (2 * \<bar>e\<bar> + (if e < 0 then 1 else 0)))") simp_all

declare ipow.simps [simp del]

text \<open>\<open>ilog b a\<close> is the integer \<open>e\<close> with \<open>b\<^sup>e \<le> a < b\<^sup>e\<^sup>+\<^sup>1\<close>, for positive \<open>a\<close>.\<close>

definition ilog :: "int \<Rightarrow> rat \<Rightarrow> int" where
  "ilog b a = (let (p, d) = quotient_of a; e0 = ndigits b p - ndigits b d
               in if ipow (of_int b) e0 \<le> a then e0 else e0 - 1)"

definition round_even :: "rat \<Rightarrow> int" where
  "round_even q = (let f = \<lfloor>q\<rfloor>; d = q - of_int f
                   in if d < 1 / 2 then f else if 1 / 2 < d then f + 1
                      else if even f then f else f + 1)"

text \<open>
  Rounding of a positive rational: 53 significant bits, the exponent not below that of
  the subnormal doubles, and everything from \<open>2\<^sup>1\<^sup>0\<^sup>2\<^sup>4\<close> on is infinite (which
  only a number with exponent 1023 or more can reach).
\<close>

definition rnd_pos :: "rat \<Rightarrow> jsnum" where
  "rnd_pos a = (let e = max (ilog 2 a) (- 1022); u = ipow 2 (e - 52);
                    r = of_int (round_even (a / u)) * u
                in if 1023 \<le> e \<and> ipow 2 1024 \<le> r then PInf else Fin r)"

fun js_neg :: "jsnum \<Rightarrow> jsnum" where
  "js_neg (Fin q) = Fin (- q)"
| "js_neg PInf = NInf"
| "js_neg NInf = PInf"
| "js_neg NaN = NaN"

definition rnd :: "rat \<Rightarrow> jsnum" where
  "rnd q = (if q = 0 then Fin 0 else if 0 < q then rnd_pos q else js_neg (rnd_pos (- q)))"

text \<open>The \<open>+\<close> of two numbers.\<close>

fun js_add :: "jsnum \<Rightarrow> jsnum \<Rightarrow> jsnum" where
  "js_add (Fin a) (Fin b) = rnd (a + b)"
| "js_add NaN _ = NaN"
| "js_add _ NaN = NaN"
| "js_add PInf NInf = NaN"
| "js_add NInf PInf = NaN"
| "js_add PInf _ = PInf"
| "js_add _ PInf = PInf"
| "js_add NInf _ = NInf"
| "js_add _ NInf = NInf"

section \<open>Strings and numerals\<close>

text \<open>
  A string is a sequence of code units below 256: the character with number \<open>n\<close> stands
  for the code unit \<open>n\<close>.
\<close>

definition is_digit :: "char \<Rightarrow> bool" where
  "is_digit c = (48 \<le> (of_char c :: int) \<and> (of_char c :: int) \<le> 57)"

definition digit_val :: "char \<Rightarrow> int" where
  "digit_val c = of_char c - 48"

definition digit_char :: "int \<Rightarrow> char" where
  "digit_char n = ''0123456789'' ! nat n"

definition digits_val :: "string \<Rightarrow> int" where
  "digits_val s = foldl (\<lambda>n c. 10 * n + digit_val c) 0 s"

function dec :: "int \<Rightarrow> string" where
  "dec n = (if n < 10 then [digit_char n] else dec (n div 10) @ [digit_char (n mod 10)])"
  by pat_completeness auto
termination
  by (relation "measure nat") (auto simp: int_div_less_self)

declare dec.simps [simp del]

subsection \<open>Number to string\<close>

text \<open>
  \<open>Number::toString\<close>: the shortest decimal numeral \<open>s \<times> 10\<^sup>n\<^sup>-\<^sup>k\<close> of \<open>k\<close> digits
  that rounds back to the number, the closest one if there are several, written in
  positional notation for \<open>-6 < n \<le> 21\<close> and in exponent notation otherwise.
\<close>

definition digits_for :: "rat \<Rightarrow> int \<Rightarrow> int \<Rightarrow> int option" where
  "digits_for x n k =
     (let sc = ipow 10 (n - k); lo = \<lfloor>x / sc\<rfloor>;
          ok = (\<lambda>s. rnd (of_int s * sc) = Fin x)
      in if ok lo \<and> ok (lo + 1) then
           (let dl = x - of_int lo * sc; dh = of_int (lo + 1) * sc - x
            in Some (if dl < dh \<or> (dl = dh \<and> even lo) then lo else lo + 1))
         else if ok lo then Some lo
         else if ok (lo + 1) then Some (lo + 1)
         else None)"

fun shortest :: "rat \<Rightarrow> int \<Rightarrow> int list \<Rightarrow> int \<times> int" where
  "shortest x n [] = (\<lfloor>x / ipow 10 (n - 17)\<rfloor>, 17)"
| "shortest x n (k # ks) =
     (case digits_for x n k of Some s \<Rightarrow> (s, k) | None \<Rightarrow> shortest x n ks)"

definition decimal_digits :: "rat \<Rightarrow> int \<times> int \<times> int" where
  "decimal_digits x =
     (let n0 = ilog 10 x + 1; (s0, k) = shortest x n0 [1..17]
      in if s0 = 10 ^ nat k then (10 ^ nat (k - 1), k, n0 + 1) else (s0, k, n0))"

definition format_number :: "string \<Rightarrow> int \<Rightarrow> int \<Rightarrow> string" where
  "format_number ds k n =
     (if k \<le> n \<and> n \<le> 21 then ds @ replicate (nat (n - k)) (CHR ''0'')
      else if 0 < n \<and> n \<le> 21 then take (nat n) ds @ ''.'' @ drop (nat n) ds
      else if - 6 < n \<and> n \<le> 0 then ''0.'' @ replicate (nat (- n)) (CHR ''0'') @ ds
      else (let e = n - 1; es = (if e < 0 then ''-'' else ''+'') @ dec \<bar>e\<bar>
            in if k = 1 then ds @ ''e'' @ es
               else hd ds # ''.'' @ tl ds @ ''e'' @ es))"

definition pos_to_string :: "rat \<Rightarrow> string" where
  "pos_to_string x = (let (s, k, n) = decimal_digits x in format_number (dec s) k n)"

fun num_to_string :: "jsnum \<Rightarrow> string" where
  "num_to_string NaN = ''NaN''"
| "num_to_string PInf = ''Infinity''"
| "num_to_string NInf = ''-Infinity''"
| "num_to_string (Fin q) =
     (if q = 0 then ''0'' else if q < 0 then ''-'' @ pos_to_string (- q)
      else pos_to_string q)"

subsection \<open>\<open>parseFloat\<close> on a string\<close>

text \<open>
  Leading white space is dropped; the longest prefix that is a decimal literal (a sign, then
  \<open>Infinity\<close> or digits with an optional fraction and an optional exponent) gives the
  number; without such a prefix the result is \<open>NaN\<close>. The white space and line
  terminators of JavaScript below 256 are TAB, LF, VT, FF, CR, the space and the no-break
  space.
\<close>

definition is_space :: "char \<Rightarrow> bool" where
  "is_space c = ((of_char c :: int) \<in> {9, 10, 11, 12, 13, 32, 160})"

definition exponent_part :: "string \<Rightarrow> int" where
  "exponent_part s =
     (case s of
        [] \<Rightarrow> 0
      | c # t \<Rightarrow>
          if c = CHR ''e'' \<or> c = CHR ''E'' then
            (case t of
               [] \<Rightarrow> 0
             | d # t' \<Rightarrow>
                 if is_digit d then digits_val (takeWhile is_digit t)
                 else if takeWhile is_digit t' = [] then 0
                 else if d = CHR ''+'' then digits_val (takeWhile is_digit t')
                 else if d = CHR ''-'' then - digits_val (takeWhile is_digit t')
                 else 0)
          else 0)"

definition unsigned_literal :: "string \<Rightarrow> jsnum" where
  "unsigned_literal s =
     (if take 8 s = ''Infinity'' then PInf
      else let ip = takeWhile is_digit s; r1 = dropWhile is_digit s;
               fp = (case r1 of [] \<Rightarrow> [] | c # t \<Rightarrow>
                       if c = CHR ''.'' then takeWhile is_digit t else []);
               r2 = (case r1 of [] \<Rightarrow> [] | c # t \<Rightarrow>
                       if c = CHR ''.'' then dropWhile is_digit t else r1)
           in if ip = [] \<and> fp = [] then NaN
              else rnd (of_int (digits_val (ip @ fp))
                        * ipow 10 (exponent_part r2 - int (length fp))))"

definition parse_float_str :: "string \<Rightarrow> jsnum" where
  "parse_float_str s =
     (case dropWhile is_space s of
        [] \<Rightarrow> NaN
      | c # t \<Rightarrow>
          if c = CHR ''-'' then js_neg (unsigned_literal t)
          else if c = CHR ''+'' then unsigned_literal t
          else unsigned_literal (c # t))"

section \<open>JavaScript values\<close>

text \<open>
  The values the handler meets: \<open>undefined\<close>, strings, numbers, and objects. Of an object
  only its conversion to a string matters here, so an object carries that string.
\<close>

datatype jsval = Undefined | Str string | Num jsnum | Obj string

fun to_string :: "jsval \<Rightarrow> string" where
  "to_string Undefined = ''undefined''"
| "to_string (Str s) = s"
| "to_string (Num n) = num_to_string n"
| "to_string (Obj s) = s"

fun truthy :: "jsval \<Rightarrow> bool" where
  "truthy Undefined = False"
| "truthy (Str s) = (s \<noteq> [])"
| "truthy (Num n) = (n \<noteq> NaN \<and> n \<noteq> Fin 0)"
| "truthy (Obj s) = True"

text \<open>\<open>a || b\<close>\<close>

definition js_or :: "jsval \<Rightarrow> jsval \<Rightarrow> jsval" where
  "js_or a b = (if truthy a then a else b)"

text \<open>
  \<open>a + b\<close>: numeric addition when both operands are numbers or \<open>undefined\<close>,
  concatenation of the string conversions when one of them is a string or an object.
\<close>

fun js_plus :: "jsval \<Rightarrow> jsval \<Rightarrow> jsval" where
  "js_plus (Num a) (Num b) = Num (js_add a b)"
| "js_plus Undefined (Num b) = Num NaN"
| "js_plus (Num a) Undefined = Num NaN"
| "js_plus Undefined Undefined = Num NaN"
| "js_plus a b = Str (to_string a @ to_string b)"

text \<open>\<open>parseFloat(v)\<close> converts its argument to a string first.\<close>

definition parseFloat :: "jsval \<Rightarrow> jsval" where
  "parseFloat v = Num (parse_float_str (to_string v))"

section \<open>Plain objects\<close>

text \<open>
  The accumulator \<open>aggregated\<close> is a plain object created by \<open>{}\<close>. Its own properties
  are kept in creation order. Reading a name it does not own continues in
  \<open>Object.prototype\<close>, which holds eleven functions and the accessor \<open>__proto__\<close>.
\<close>

type_synonym js_object = "(string \<times> jsval) list"

definition proto_functions :: "string list" where
  "proto_functions =
     [''constructor'', ''__defineGetter__'', ''__defineSetter__'', ''hasOwnProperty'',
      ''__lookupGetter__'', ''__lookupSetter__'', ''isPrototypeOf'',
      ''propertyIsEnumerable'', ''toString'', ''valueOf'', ''toLocaleString'']"

definition native_function :: "string \<Rightarrow> jsval" where
  "native_function name = Obj (''function '' @ name @ ''() { [native code] }'')"

definition object_prototype :: "string \<Rightarrow> jsval" where
  "object_prototype k =
     (if k = ''__proto__'' then Obj ''[object Object]''
      else if k = ''constructor'' then native_function ''Object''
      else if k \<in> set proto_functions then native_function k
      else Undefined)"

text \<open>\<open>obj[k]\<close>\<close>

definition get_prop :: "js_object \<Rightarrow> string \<Rightarrow> jsval" where
  "get_prop obj k = (case map_of obj k of Some v \<Rightarrow> v | None \<Rightarrow> object_prototype k)"

fun put_own :: "js_object \<Rightarrow> string \<Rightarrow> jsval \<Rightarrow> js_object" where
  "put_own [] k v = [(k, v)]"
| "put_own ((k', v') # ps) k v =
     (if k' = k then (k, v) # ps else (k', v') # put_own ps k v)"

text \<open>
  \<open>obj[k] = v\<close> for a primitive \<open>v\<close> (the handler only stores results of \<open>+\<close>): an own
  property is overwritten in place, a new one is added last, and the setter behind
  \<open>__proto__\<close> ignores a value that is not an object.
\<close>

definition set_prop :: "js_object \<Rightarrow> string \<Rightarrow> jsval \<Rightarrow> js_object" where
  "set_prop obj k v = (if k = ''__proto__'' then obj else put_own obj k v)"

text \<open>
  Property enumeration: first the names that are array indices (canonical numerals below
  \<open>2\<^sup>3\<^sup>2 - 1\<close>) in ascending numeric order, then the other names in creation order.
\<close>

definition is_array_index :: "string \<Rightarrow> bool" where
  "is_array_index k =
     (k \<noteq> [] \<and> list_all is_digit k \<and> (k = ''0'' \<or> hd k \<noteq> CHR ''0'')
      \<and> length k \<le> 10 \<and> digits_val k < 4294967295)"

definition own_entries :: "js_object \<Rightarrow> (string \<times> jsval) list" where
  "own_entries obj =
     sort_key (\<lambda>p. digits_val (fst p)) (filter (\<lambda>p. is_array_index (fst p)) obj)
     @ filter (\<lambda>p. \<not> is_array_index (fst p)) obj"

definition object_keys :: "js_object \<Rightarrow> string list" where
  "object_keys obj = map fst (own_entries obj)"

definition object_values :: "js_object \<Rightarrow> jsval list" where
  "object_values obj = map snd (own_entries obj)"

section \<open>The chart page\<close>

text \<open>
  A row of the loaded sheet is read only through \<open>row[column]\<close>, so a row is the function
  from a column name to what that expression gives. A row is a plain object: \<open>mk_row\<close>
  gives the row with the listed cells, where a name that is not among them is looked up
  in \<open>Object.prototype\<close> and is \<open>undefined\<close> when it is not there either. The cells of
  a sheet are strings and numbers; booleans and \<open>null\<close> are outside the model.
\<close>

type_synonym row = "string \<Rightarrow> jsval"

definition mk_row :: "(string \<times> jsval) list \<Rightarrow> row" where
  "mk_row cells = (\<lambda>k. case map_of cells k of Some v \<Rightarrow> v | None \<Rightarrow> object_prototype k)"

record chart_config =
  cfg_type :: string
  cfg_title :: string
  xAxis :: string
  yAxis :: string

datatype color = Colors "string list" | Color string | NoColor

record chart_dataset =
  ds_label :: "string option"
  ds_data :: "jsval list"
  backgroundColor :: color
  borderColor :: "string option"
  borderWidth :: "int option"
  fill :: "bool option"

record chart_data =
  labels :: "jsval list"
  datasets :: "chart_dataset list"

text \<open>
  The component state the handler reads and writes: \<open>excelData\<close> is \<open>null\<close> until a file
  is loaded and then holds the rows of \<open>excelData.data\<close>; \<open>chartData\<close> is \<open>null\<close> until a
  chart has been generated.
\<close>

record page_state =
  excelData :: "row list option"
  chartConfig :: chart_config
  chartData :: "chart_data option"

text \<open>\<open>parseFloat(v) || 0\<close>\<close>

definition parseFloat_or_0 :: "jsval \<Rightarrow> jsval" where
  "parseFloat_or_0 v = js_or (parseFloat v) (Num (Fin 0))"

text \<open>The body of the \<open>forEach\<close> of the pie branch.\<close>

definition pie_step :: "chart_config \<Rightarrow> js_object \<Rightarrow> row \<Rightarrow> js_object" where
  "pie_step cfg aggregated row =
     (let category = to_string (row (xAxis cfg));
          value = parseFloat_or_0 (row (yAxis cfg))
      in set_prop aggregated category
           (js_plus (js_or (get_prop aggregated category) (Num (Fin 0))) value))"

definition pie_colors :: "string list" where
  "pie_colors = [''#FF6384'', ''#36A2EB'', ''#FFCE56'', ''#4BC0C0'', ''#9966FF'', ''#FF9F40'']"

definition generateChartData :: "page_state \<Rightarrow> page_state" where
  "generateChartData st =
     (case excelData st of
        None \<Rightarrow> st
      | Some data \<Rightarrow>
          let cfg = chartConfig st
          in if xAxis cfg = [] \<or> yAxis cfg = [] then st
             else if cfg_type cfg = ''pie'' then
               (let aggregated = foldl (pie_step cfg) [] data
                in st\<lparr>chartData := Some
                      \<lparr>labels = map Str (object_keys aggregated),
                       datasets =
                         [\<lparr>ds_label = None, ds_data = object_values aggregated,
                           backgroundColor = Colors pie_colors, borderColor = None,
                           borderWidth = None, fill = None\<rparr>]\<rparr>\<rparr>)
             else
               (let labels = map (\<lambda>row. row (xAxis cfg)) data;
                    values = map (\<lambda>row. parseFloat_or_0 (row (yAxis cfg))) data
                in st\<lparr>chartData := Some
                      \<lparr>labels = labels,
                       datasets =
                         [\<lparr>ds_label = Some (yAxis cfg), ds_data = values,
                           backgroundColor =
                             (if cfg_type cfg = ''bar'' then Color ''rgba(54, 162, 235, 0.6)''
                              else NoColor),
                           borderColor = Some ''rgba(54, 162, 235, 1)'',
                           borderWidth = Some 2, fill = Some False\<rparr>]\<rparr>\<rparr>))"

text \<open>
  The aggregator of the specification, \<open>aggregate(dataset, request)\<close>, is the handler run
  on a loaded dataset with no chart generated yet; its result is the new \<open>chartData\<close>.
\<close>

definition aggregate :: "row list \<Rightarrow> chart_config \<Rightarrow> chart_data option" where
  "aggregate D R =
     chartData (generateChartData \<lparr>excelData = Some D, chartConfig = R, chartData = None\<rparr>)"

text \<open>The value sequence of a series: the data of its datasets.\<close>

definition series_values :: "chart_data \<Rightarrow> jsval list" where
  "series_values c = concat (map ds_data (datasets c))"

section \<open>Notions used to state the properties\<close>

text \<open>A chart request, as the specification writes it (the title plays no part).\<close>

definition request :: "string \<Rightarrow> string \<Rightarrow> string \<Rightarrow> chart_config" where
  "request t x y = \<lparr>cfg_type = t, cfg_title = [], xAxis = x, yAxis = y\<rparr>"

text \<open>The grouping key and the numeric value the handler takes from a row.\<close>

definition x_key :: "chart_config \<Rightarrow> row \<Rightarrow> string" where
  "x_key R r = to_string (r (xAxis R))"

definition y_value :: "chart_config \<Rightarrow> row \<Rightarrow> jsval" where
  "y_value R r = parseFloat_or_0 (r (yAxis R))"

text \<open>
  A text starts with a number when, after leading white space and one optional sign, there
  is \<open>Infinity\<close>, a digit, or a point followed by a digit. A cell has no leading number
  when its string form does not start with one.
\<close>

definition starts_with_number :: "string \<Rightarrow> bool" where
  "starts_with_number s =
     (let t = dropWhile is_space s;
          u = (case t of [] \<Rightarrow> []
               | c # r \<Rightarrow> if c = CHR ''-'' \<or> c = CHR ''+'' then r else t)
      in take 8 u = ''Infinity''
         \<or> (case u of [] \<Rightarrow> False
             | c # r \<Rightarrow> is_digit c
                 \<or> (c = CHR ''.'' \<and> (case r of [] \<Rightarrow> False | d # _ \<Rightarrow> is_digit d))))"

definition no_leading_number :: "jsval \<Rightarrow> bool" where
  "no_leading_number v = (\<not> starts_with_number (to_string v))"

text \<open>The elements of a list in the order of their first occurrence.\<close>

definition first_seen :: "'a list \<Rightarrow> 'a list" where
  "first_seen xs = rev (remdups (rev xs))"

text \<open>The output of the pie branch read as a mapping from label to value.\<close>

definition series_mapping :: "chart_data \<Rightarrow> (jsval \<times> jsval) list" where
  "series_mapping c = zip (labels c) (series_values c)"

text \<open>
  The sum of a list of values as JavaScript computes it, \<open>vs.reduce((a, b) => a + b, 0)\<close>,
  and the running total the pie branch keeps for one key, \<open>(total || 0) + v\<close> for each
  value in turn.
\<close>

definition js_sum :: "jsval list \<Rightarrow> jsval" where
  "js_sum vs = foldl js_plus (Num (Fin 0)) vs"

definition running_total :: "jsval \<Rightarrow> jsval list \<Rightarrow> jsval" where
  "running_total start vs = foldl (\<lambda>a v. js_plus (js_or a (Num (Fin 0))) v) start vs"

text \<open>A number is a double when rounding leaves it as it is.\<close>

fun is_double :: "jsnum \<Rightarrow> bool" where
  "is_double (Fin q) = (rnd q = Fin q)"
| "is_double _ = True"


text \<open>The integer a number denotes, and the values that are integers.\<close>

fun int_value :: "jsval \<Rightarrow> int" where
  "int_value (Num (Fin q)) = \<lfloor>q\<rfloor>"
| "int_value _ = 0"

definition is_integer_value :: "jsval \<Rightarrow> bool" where
  "is_integer_value v = (v = Num (Fin (of_int (int_value v))))"

subsection \<open>Example sheets\<close>

definition sales_rows :: "row list" where
  "sales_rows =
     [mk_row [(''region'', Str ''A''), (''sales'', Str ''10'')],
      mk_row [(''region'', Str ''B''), (''sales'', Str ''20'')],
      mk_row [(''region'', Str ''A''), (''sales'', Str ''5'')]]"

definition year_rows :: "row list" where
  "year_rows =
     [mk_row [(''year'', Str ''2021''), (''sales'', Str ''1'')],
      mk_row [(''year'', Str ''2020''), (''sales'', Str ''2'')]]"

definition mixed_rows :: "row list" where
  "mixed_rows =
     [mk_row [(''id'', Num (Fin 1)), (''sales'', Str ''10'')],
      mk_row [(''id'', Str ''1''), (''sales'', Str ''5'')]]"

definition big_rows :: "row list" where
  "big_rows =
     [mk_row [(''region'', Str ''A''), (''sales'', Str ''9007199254740992'')],
      mk_row [(''region'', Str ''B''), (''sales'', Str ''1'')],
      mk_row [(''region'', Str ''B''), (''sales'', Str ''1'')],
      mk_row [(''region'', Str ''A''), (''sales'', Str ''1'')]]"

definition text_rows :: "row list" where
  "text_rows =
     [mk_row [(''region'', Str ''A''), (''sales'', Str ''10'')],
      mk_row [(''region'', Str ''A''), (''sales'', Str ''abc'')],
      mk_row [(''sales'', Str ''7'')]]"

definition inf_rows :: "row list" where
  "inf_rows =
     [mk_row [(''region'', Str ''A''), (''sales'', Str ''Infinity'')],
      mk_row [(''region'', Str ''A''), (''sales'', Str ''-Infinity'')],
      mk_row [(''region'', Str ''A''), (''sales'', Str ''abc'')]]"


definition ledger_rows :: "row list" where
  "ledger_rows =
     [mk_row [(''item'', Str ''tea''), (''sales'', Str ''1'')],
      mk_row [(''item'', Str ''7''), (''sales'', Str ''2'')],
      mk_row [(''item'', Str ''coffee''), (''sales'', Str ''3'')],
      mk_row [(''item'', Str ''tea''), (''sales'', Str ''4'')],
      mk_row [(''item'', Str ''3''), (''sales'', Str ''5'')]]"

section \<open>Rounding\<close>

lemma ipow_eq: "ipow b e = b powi e"
proof (induction b e rule: ipow.induct)
  case (1 b e)
  show ?case
  proof (cases "e < 0")
    case True
    then show ?thesis using 1(1) by (subst ipow.simps) (simp add: power_int_minus_divide)
  next
    case False
    show ?thesis
    proof (cases "e = 0")
      case True then show ?thesis by (subst ipow.simps) simp
    next
      case ne: False
      show ?thesis
      proof (cases "even e")
        case True
        then obtain k where k: "e = 2 * k" by (auto elim: evenE)
        have "ipow b e = ipow b (e div 2) * ipow b (e div 2)"
          using False ne True by (subst ipow.simps) (simp add: Let_def)
        also have "\<dots> = b powi k * b powi k" using 1(2)[OF False ne True] k by simp
        also have "\<dots> = b powi e" using k False
          by (simp add: power_int_def nat_mult_distrib power_mult power2_eq_square
              flip: power_add mult_2)
        finally show ?thesis .
      next
        case odd: False
        have "ipow b e = b * ipow b (e - 1)"
          using False ne odd by (subst ipow.simps) simp
        also have "\<dots> = b * b powi (e - 1)" using 1(3)[OF False ne odd] by simp
        also have "\<dots> = b powi e" using False ne
          by (simp add: power_int_def nat_diff_distrib flip: power_Suc)
        finally show ?thesis .
      qed
    qed
  qed
qed

lemma round_even_of_int: "round_even (of_int n) = n"
  by (simp add: round_even_def)

lemma round_even_ge_floor: "\<lfloor>q\<rfloor> \<le> round_even q"
  by (simp add: round_even_def Let_def)

lemma round_even_le_ceil: "round_even q \<le> \<lfloor>q\<rfloor> + 1"
  by (simp add: round_even_def Let_def)

lemma round_even_le: assumes "q \<le> of_int m" shows "round_even q \<le> m"
proof (cases "q = of_int m")
  case True then show ?thesis by (simp add: round_even_of_int)
next
  case False
  with assms have "q < of_int m" by simp
  then have "\<lfloor>q\<rfloor> < m" by (simp add: floor_less_iff)
  with round_even_le_ceil[of q] show ?thesis by linarith
qed

lemma round_even_ge: assumes "of_int m \<le> q" shows "m \<le> round_even q"
proof -
  have "m \<le> \<lfloor>q\<rfloor>" using assms by (simp add: le_floor_iff)
  with round_even_ge_floor[of q] show ?thesis by linarith
qed

lemma ndigits_bounds:
  "0 < x \<Longrightarrow> 1 < b \<Longrightarrow> 1 \<le> ndigits b x \<and> b ^ nat (ndigits b x - 1) \<le> x \<and> x < b ^ nat (ndigits b x)"
proof (induction b x rule: ndigits.induct)
  case (1 b x)
  have eq: "ndigits b x = ndigits b (x div b) + 1"
    using 1(2,3) by (subst ndigits.simps) simp
  have dm: "x = b * (x div b) + x mod b" by simp
  have m0: "0 \<le> x mod b" and m1: "x mod b < b" using 1(3) by simp_all
  show ?case
  proof (cases "x div b = 0")
    case True
    then have "x < b" using 1(2,3) by presburger
    moreover have "ndigits b (x div b) = 0" using True by (subst ndigits.simps) simp
    ultimately show ?thesis using eq 1(2) by simp
  next
    case False
    have "0 \<le> x div b" using 1(2,3) by (simp add: pos_imp_zdiv_nonneg_iff)
    with False have pos: "0 < x div b" by simp
    have "0 < x \<and> 1 < b" using 1(2,3) by simp
    from 1(1)[OF this pos 1(3)]
    have IH: "1 \<le> ndigits b (x div b)" "b ^ nat (ndigits b (x div b) - 1) \<le> x div b"
      "x div b < b ^ nat (ndigits b (x div b))" by auto
    let ?m = "ndigits b (x div b)"
    have m: "nat ?m = Suc (nat (?m - 1))" using IH(1) by simp
    have "b * b ^ nat (?m - 1) \<le> b * (x div b)"
      using IH(2) 1(3) by (intro mult_left_mono) simp_all
    then have "b * b ^ nat (?m - 1) \<le> x" using dm m0 by linarith
    moreover have "b ^ nat ?m = b * b ^ nat (?m - 1)" by (subst m) simp
    ultimately have lo: "b ^ nat ?m \<le> x" by simp
    have "x div b + 1 \<le> b ^ nat ?m" using IH(3) by simp
    then have h: "b * (x div b + 1) \<le> b * b ^ nat ?m"
      using 1(3) by (intro mult_left_mono) simp_all
    have e1: "b * (x div b + 1) = b * (x div b) + b" by (simp add: algebra_simps)
    have "x < b * b ^ nat ?m" using h dm m1 e1 by linarith
    then have hi: "x < b ^ Suc (nat ?m)" by simp
    have "nat (ndigits b x) = Suc (nat ?m)" using eq IH(1) by simp
    moreover have "nat (ndigits b x - 1) = nat ?m" using eq by simp
    ultimately show ?thesis using lo hi eq IH(1) by simp
  qed
qed

lemma powi_mono: "x \<le> y \<Longrightarrow> (2::rat) powi x \<le> 2 powi y"
  by (simp add: power_int_increasing)

lemma powi_strict: "x < y \<Longrightarrow> (2::rat) powi x < 2 powi y"
  by (simp add: power_int_strict_increasing)

lemma powi_le_imp_le: "(2::rat) powi x \<le> 2 powi y \<Longrightarrow> x \<le> y"
  using powi_strict[of y x] by (cases "x \<le> y") auto

lemma powi_less_imp_less: "(2::rat) powi x < 2 powi y \<Longrightarrow> x < y"
  using powi_mono[of y x] by (cases "x < y") auto

lemma ilog2_bounds:
  assumes "0 < a"
  shows "2 powi (ilog 2 a) \<le> a" and "a < 2 powi (ilog 2 a + 1)"
proof -
  obtain p d where pd: "quotient_of a = (p, d)" by (cases "quotient_of a")
  then have d: "0 < d" and a: "a = of_int p / of_int d"
    using quotient_of_denom_pos[OF pd] quotient_of_div[OF pd] by simp_all
  have p: "0 < p" using assms a d by (simp add: zero_less_divide_iff)
  let ?np = "ndigits 2 p" and ?nd = "ndigits 2 d"
  from ndigits_bounds[OF p] have P: "1 \<le> ?np" "2 ^ nat (?np - 1) \<le> p" "p < 2 ^ nat ?np" by simp_all
  from ndigits_bounds[OF d] have D: "1 \<le> ?nd" "2 ^ nat (?nd - 1) \<le> d" "d < 2 ^ nat ?nd" by simp_all
  have Pr: "(2::rat) powi (?np - 1) \<le> of_int p" "of_int p < (2::rat) powi ?np"
    using P by (simp_all add: power_int_def)
  have Dr: "(2::rat) powi (?nd - 1) \<le> of_int d" "of_int d < (2::rat) powi ?nd"
    using D by (simp_all add: power_int_def)
  have il: "ilog 2 a = (if 2 powi (?np - ?nd) \<le> a then ?np - ?nd else ?np - ?nd - 1)"
    by (simp add: ilog_def pd ipow_eq Let_def)
  have pp: "(0::rat) < 2 powi (?nd - 1)" "(0::rat) \<le> 2 powi (?np - 1)" by simp_all
  have up: "a < 2 powi (?np - ?nd + 1)"
  proof -
    have "of_int p / of_int d < (2::rat) powi ?np / 2 powi (?nd - 1)"
      using Pr(2) Dr(1) p pp by (intro frac_less) simp_all
    moreover have "(2::rat) powi (?np - (?nd - 1)) = 2 powi ?np / 2 powi (?nd - 1)"
      by (rule power_int_diff) simp
    moreover have "?np - (?nd - 1) = ?np - ?nd + 1" by simp
    ultimately show ?thesis unfolding a by simp
  qed
  have lo: "2 powi (?np - ?nd - 1) \<le> a"
  proof -
    have "(2::rat) powi (?np - 1) / 2 powi ?nd \<le> of_int p / of_int d"
      using Pr(1) Dr(2) d p pp by (intro frac_le) simp_all
    moreover have "(2::rat) powi ((?np - 1) - ?nd) = 2 powi (?np - 1) / 2 powi ?nd"
      by (rule power_int_diff) simp
    moreover have "(?np - 1) - ?nd = ?np - ?nd - 1" by simp
    ultimately show ?thesis unfolding a by simp
  qed
  show "2 powi (ilog 2 a) \<le> a" using il lo by (simp split: if_splits)
  show "a < 2 powi (ilog 2 a + 1)" using il up by (simp split: if_splits)
qed

lemma pow53: "(2::rat) powi (e + 1) = 2 ^ 53 * 2 powi (e - 52)"
proof -
  have "(2::rat) powi (e + 1) = 2 powi (53 + (e - 52))"
    by (rule arg_cong[where f = "\<lambda>z. 2 powi z"]) simp
  also have "\<dots> = 2 powi 53 * 2 powi (e - 52)" by (rule power_int_add) simp
  also have "\<dots> = 2 ^ 53 * 2 powi (e - 52)" by simp
  finally show ?thesis .
qed

lemma rnd_pos_exact_aux:
  assumes n: "0 < n" "n < 2 ^ 53" and k: "- 1074 \<le> k"
    and a: "a = of_int n * 2 powi k" and bd: "a < 2 powi 1024"
  shows "rnd_pos a = Fin a"
proof -
  have apos: "0 < a" using n a by simp
  define e where "e = max (ilog 2 a) (- 1022)"
  have "a < 2 ^ 53 * 2 powi k"
    unfolding a using n(2) by (intro mult_strict_right_mono) (simp_all add: of_int_less_iff[of n "2 ^ 53", where ?'a = rat, simplified])
  also have "\<dots> = 2 powi (53 + k)" by (simp add: power_int_add)
  finally have "2 powi (ilog 2 a) < (2::rat) powi (53 + k)"
    using ilog2_bounds(1)[OF apos] by simp
  then have "ilog 2 a < 53 + k" by (rule powi_less_imp_less)
  then have ek: "e - 52 \<le> k" using k by (simp add: e_def)
  define j where "j = nat (k - (e - 52))"
  have kj: "k = (e - 52) + int j" using ek by (simp add: j_def)
  have "a / 2 powi (e - 52) = of_int n * 2 ^ j"
    unfolding a by (subst kj) (simp add: power_int_add)
  also have "\<dots> = of_int (n * 2 ^ j)" by simp
  finally have q: "a / 2 powi (e - 52) = of_int (n * 2 ^ j)" .
  have pk: "(2::rat) powi k = 2 powi (e - 52) * 2 ^ j"
    by (subst kj) (simp add: power_int_add)
  have r: "of_int (round_even (a / 2 powi (e - 52))) * 2 powi (e - 52) = a"
    unfolding q round_even_of_int unfolding a by (simp add: pk)
  show ?thesis
    using bd by (simp add: rnd_pos_def Let_def ipow_eq r flip: e_def)
qed

lemma rnd_pos_exact:
  assumes n: "0 < n" "n \<le> 2 ^ 53" and k: "- 1074 \<le> k"
    and a: "a = of_int n * 2 powi k" and bd: "a < 2 powi 1024"
  shows "rnd_pos a = Fin a"
proof (cases "n = 2 ^ 53")
  case False
  with n have "n < 2 ^ 53" by simp
  then show ?thesis using rnd_pos_exact_aux[OF n(1) _ k a bd] by simp
next
  case True
  have "a = of_int (2 ^ 52) * 2 powi (k + 1)"
    unfolding a True by (simp add: power_int_add)
  then show ?thesis using rnd_pos_exact_aux[of "2 ^ 52" "k + 1" a] k bd by simp
qed

lemma rnd_pos_shape:
  assumes apos: "0 < a" and r: "rnd_pos a = Fin r"
  shows "r = 0 \<or> (\<exists>n k. 0 < n \<and> n \<le> 2 ^ 53 \<and> - 1074 \<le> k \<and> r = of_int n * 2 powi k \<and> r < 2 powi 1024)"
proof -
  define e where "e = max (ilog 2 a) (- 1022)"
  define u :: rat where "u = 2 powi (e - 52)"
  define n where "n = round_even (a / u)"
  have upos: "0 < u" by (simp add: u_def)
  have req: "r = of_int n * u" and nov: "\<not> (1023 \<le> e \<and> 2 powi 1024 \<le> of_int n * u)"
    using r by (simp_all add: rnd_pos_def Let_def ipow_eq n_def u_def e_def split: if_splits)
  have "a < 2 powi (ilog 2 a + 1)" by (rule ilog2_bounds(2)[OF apos])
  also have "\<dots> \<le> 2 powi (e + 1)" by (rule powi_mono) (simp add: e_def)
  also have "\<dots> = 2 ^ 53 * u" unfolding u_def by (rule pow53)
  finally have "a / u < 2 ^ 53" using upos by (simp add: pos_divide_less_eq)
  then have "a / u \<le> of_int (2 ^ 53)" by simp
  then have n53: "n \<le> 2 ^ 53" unfolding n_def by (rule round_even_le)
  have "of_int 0 \<le> a / u" using apos upos by simp
  then have n0: "0 \<le> n" unfolding n_def by (rule round_even_ge)
  have bd: "r < 2 powi 1024"
  proof (cases "1023 \<le> e")
    case True
    then show ?thesis using nov req by simp
  next
    case False
    have "r \<le> 2 ^ 53 * u" unfolding req using n53 upos
      by (intro mult_right_mono) (simp_all add: of_int_le_iff[of n "2 ^ 53", where ?'a = rat, simplified])
    also have "\<dots> = 2 powi (e + 1)" unfolding u_def by (rule pow53[symmetric])
    also have "\<dots> < 2 powi 1024" using False by (intro powi_strict) simp
    finally show ?thesis .
  qed
  show ?thesis
  proof (cases "n = 0")
    case True then show ?thesis using req by simp
  next
    case False
    with n0 have "0 < n" by simp
    moreover have "- 1074 \<le> e - 52" by (simp add: e_def)
    ultimately show ?thesis using n53 req bd unfolding u_def by blast
  qed
qed

lemma rnd_pos_idem:
  assumes "0 < a" "rnd_pos a = Fin r" "r \<noteq> 0"
  shows "rnd_pos r = Fin r"
  using rnd_pos_shape[OF assms(1,2)] assms(3) rnd_pos_exact by blast

lemma rnd_pos_nonneg:
  assumes "0 < a" "rnd_pos a = Fin r" shows "0 \<le> r"
  using rnd_pos_shape[OF assms] by (auto simp: zero_le_mult_iff)

lemma rnd_idem: assumes "rnd q = Fin r" shows "rnd r = Fin r"
proof -
  consider "q = 0" | "0 < q" | "q < 0" by linarith
  then show ?thesis
  proof cases
    case 1 with assms show ?thesis by (simp add: rnd_def)
  next
    case 2
    with assms have rp: "rnd_pos q = Fin r" by (simp add: rnd_def)
    show ?thesis
    proof (cases "r = 0")
      case True then show ?thesis by (simp add: rnd_def)
    next
      case False
      with rnd_pos_nonneg[OF 2 rp] have "0 < r" by simp
      then show ?thesis using rnd_pos_idem[OF 2 rp False] by (simp add: rnd_def)
    qed
  next
    case 3
    with assms have "js_neg (rnd_pos (- q)) = Fin r" by (simp add: rnd_def)
    then have rp: "rnd_pos (- q) = Fin (- r)" by (cases "rnd_pos (- q)") simp_all
    have qp: "0 < - q" using 3 by simp
    show ?thesis
    proof (cases "r = 0")
      case True then show ?thesis by (simp add: rnd_def)
    next
      case False
      with rnd_pos_nonneg[OF qp rp] have "r < 0" by simp
      moreover have "rnd_pos (- r) = Fin (- r)" using rnd_pos_idem[OF qp rp] False by simp
      ultimately show ?thesis by (simp add: rnd_def)
    qed
  qed
qed

lemma rnd_int: assumes "\<bar>n\<bar> \<le> 2 ^ 53" shows "rnd (of_int n) = Fin (of_int n)"
proof -
  have big: "(2::rat) ^ 53 < 2 powi 1024"
    using powi_strict[of 53 1024] by simp
  have pos: "rnd_pos (of_int m) = Fin (of_int m)" if "0 < m" "m \<le> 2 ^ 53" for m
  proof -
    have "(of_int m :: rat) \<le> 2 ^ 53" using that(2) by (simp add: of_int_le_iff[of m "2 ^ 53", where ?'a = rat, simplified])
    with big have "(of_int m :: rat) < 2 powi 1024" by linarith
    then show ?thesis using rnd_pos_exact[of m 0 "of_int m"] that by simp
  qed
  consider "n = 0" | "0 < n" | "n < 0" by linarith
  then show ?thesis
  proof cases
    case 1 then show ?thesis by (simp add: rnd_def)
  next
    case 2 then show ?thesis using pos[of n] assms by (simp add: rnd_def)
  next
    case 3 then show ?thesis using pos[of "- n"] assms by (simp add: rnd_def)
  qed
qed

section \<open>Evaluation on concrete inputs\<close>

lemma rnd_numeral: "(numeral w :: int) \<le> 2 ^ 53 \<Longrightarrow> rnd (numeral w) = Fin (numeral w)"
  using rnd_int[of "numeral w"] by simp

lemma rnd_1: "rnd 1 = Fin 1" using rnd_int[of 1] by simp

lemmas parse_eval = parse_float_str_def unsigned_literal_def is_space_def is_digit_def
  digits_val_def digit_val_def exponent_part_def ipow_eq rnd_numeral rnd_1

lemmas row_eval = mk_row_def object_prototype_def proto_functions_def

lemmas handler_eval = aggregate_def generateChartData_def request_def row_eval
  parseFloat_or_0_def parseFloat_def js_or_def series_values_def

lemma parseFloat_or_0_num: "\<exists>n. parseFloat_or_0 v = Num n \<and> n \<noteq> NaN"
  by (simp add: parseFloat_or_0_def parseFloat_def js_or_def)

text \<open>
  Claim C1. For a bar, line or scatter request with both axes set, the handler emits one
  point per row, in row order: the labels are the rows' x-axis values as they are, the
  values are the rows' y-axis values coerced to numbers (never \<open>NaN\<close>), and both
  sequences are as long as the dataset. Nothing is merged, removed or sorted.
\<close>

theorem bar_line_scatter_points:
  assumes "cfg_type R \<in> {''bar'', ''line'', ''scatter''}" and "xAxis R \<noteq> []" and "yAxis R \<noteq> []"
  shows "\<exists>c. aggregate D R = Some c
           \<and> labels c = map (\<lambda>row. row (xAxis R)) D
           \<and> series_values c = map (\<lambda>row. parseFloat_or_0 (row (yAxis R))) D
           \<and> length (labels c) = length D \<and> length (series_values c) = length D
           \<and> (\<forall>v \<in> set (series_values c). \<exists>n. v = Num n \<and> n \<noteq> NaN)"
proof -
  have "cfg_type R \<noteq> ''pie''" using assms(1) by auto
  then show ?thesis using assms(2,3) parseFloat_or_0_num
    by (auto simp: aggregate_def generateChartData_def series_values_def Let_def)
qed

theorem bar_line_scatter_points_witness:
  "\<exists>c. aggregate sales_rows (request ''line'' ''region'' ''sales'') = Some c
     \<and> labels c = [Str ''A'', Str ''B'', Str ''A'']
     \<and> series_values c = [Num (Fin 10), Num (Fin 20), Num (Fin 5)]
     \<and> length (labels c) = 3 \<and> length (series_values c) = 3"
  using bar_line_scatter_points[of "request ''line'' ''region'' ''sales''" sales_rows]
  by (simp add: handler_eval sales_rows_def parse_eval)

text \<open>
  Claim C7. On the empty dataset, with both axes set, every chart type gives a series
  without labels and without values (as a mapping: the empty one); there is no error.
\<close>

theorem empty_dataset_empty_series:
  assumes "xAxis R \<noteq> []" and "yAxis R \<noteq> []"
  shows "\<exists>c. aggregate [] R = Some c \<and> labels c = [] \<and> series_values c = []
           \<and> series_mapping c = []"
  using assms
  by (simp add: aggregate_def generateChartData_def series_values_def series_mapping_def
      object_keys_def object_values_def own_entries_def Let_def)

theorem empty_dataset_empty_series_witness:
  "(\<exists>c. aggregate [] (request ''pie'' ''region'' ''sales'') = Some c \<and> labels c = []
        \<and> series_values c = [] \<and> series_mapping c = [])
   \<and> (\<exists>c. aggregate [] (request ''bar'' ''region'' ''sales'') = Some c \<and> labels c = []
        \<and> series_values c = [] \<and> series_mapping c = [])"
  using empty_dataset_empty_series[of "request ''pie'' ''region'' ''sales''"]
    empty_dataset_empty_series[of "request ''bar'' ''region'' ''sales''"]
  by (simp add: request_def)

lemmas object_eval = pie_step_def get_prop_def set_prop_def object_prototype_def
  proto_functions_def object_keys_def object_values_def own_entries_def is_array_index_def

text \<open>
  Claim C8. The sheet with regions A, B, A and sales "10", "20", "5": the pie request gives
  the mapping A to 15, B to 20; the bar request gives the labels A, B, A and the values
  10, 20, 5.
\<close>

theorem region_sales_example:
  "map_option series_mapping (aggregate sales_rows (request ''pie'' ''region'' ''sales''))
     = Some [(Str ''A'', Num (Fin 15)), (Str ''B'', Num (Fin 20))]
   \<and> map_option labels (aggregate sales_rows (request ''bar'' ''region'' ''sales''))
     = Some [Str ''A'', Str ''B'', Str ''A'']
   \<and> map_option series_values (aggregate sales_rows (request ''bar'' ''region'' ''sales''))
     = Some [Num (Fin 10), Num (Fin 20), Num (Fin 5)]"
  by (simp add: handler_eval sales_rows_def parse_eval object_eval series_mapping_def)

text \<open>
  Claim C4 says that a request naming a column the sheet does not have gives an empty
  series. The handler refuses only the empty selection: with the x axis set to a column
  that no row has, the bar chart gets one \<open>undefined\<close> label and one value per row.
\<close>

theorem unknown_column_counterexample:
  "mk_row [(''region'', Str ''A''), (''sales'', Str ''10'')] ''product'' = Undefined
   \<and> map_option labels (aggregate [mk_row [(''region'', Str ''A''), (''sales'', Str ''10'')]]
        (request ''bar'' ''product'' ''sales'')) = Some [Undefined]
   \<and> map_option series_values (aggregate [mk_row [(''region'', Str ''A''), (''sales'', Str ''10'')]]
        (request ''bar'' ''product'' ''sales'')) = Some [Num (Fin 10)]"
  by (simp add: handler_eval parse_eval)

text \<open>
  Claim C4, as amended. With the x axis or the y axis unset (the empty string) the handler
  is a no-op for every dataset and chart type: the page state is unchanged and no series
  is produced. Every other request is aggregated, whether or not its axis names are
  columns of the sheet: a series is produced, and in a bar, line or scatter chart it has
  one point per row, the label of a row being what reading the x-axis property of that
  row gives.
\<close>

theorem axis_selection_guard:
  "(xAxis (chartConfig st) = [] \<or> yAxis (chartConfig st) = [] \<longrightarrow>
      generateChartData st = st \<and> aggregate D (chartConfig st) = None)
   \<and> (xAxis (chartConfig st) \<noteq> [] \<and> yAxis (chartConfig st) \<noteq> [] \<longrightarrow>
        (\<exists>c. aggregate D (chartConfig st) = Some c
           \<and> (cfg_type (chartConfig st) \<noteq> ''pie'' \<longrightarrow>
                labels c = map (\<lambda>row. row (xAxis (chartConfig st))) D
                \<and> length (series_values c) = length D)))"
  by (auto simp: aggregate_def generateChartData_def series_values_def Let_def
      split: option.splits)

theorem axis_selection_guard_witness:
  "generateChartData \<lparr>excelData = Some sales_rows, chartConfig = request ''pie'' [] ''sales'',
                       chartData = None\<rparr>
     = \<lparr>excelData = Some sales_rows, chartConfig = request ''pie'' [] ''sales'', chartData = None\<rparr>
   \<and> aggregate sales_rows (request ''pie'' [] ''sales'') = None
   \<and> (\<exists>c. aggregate sales_rows (request ''bar'' ''product'' ''sales'') = Some c
          \<and> labels c = [Undefined, Undefined, Undefined]
          \<and> length (series_values c) = 3)"
proof -
  let ?s1 = "\<lparr>excelData = Some sales_rows, chartConfig = request ''pie'' [] ''sales'',
              chartData = None\<rparr>"
  let ?s2 = "\<lparr>excelData = Some sales_rows, chartConfig = request ''bar'' ''product'' ''sales'',
              chartData = None\<rparr>"
  have a: "xAxis (chartConfig ?s1) = [] \<or> yAxis (chartConfig ?s1) = []"
    by (simp add: request_def)
  have b: "xAxis (chartConfig ?s2) \<noteq> [] \<and> yAxis (chartConfig ?s2) \<noteq> []"
    "cfg_type (chartConfig ?s2) \<noteq> ''pie''"
    by (simp_all add: request_def)
  have ls: "map (\<lambda>row. row (xAxis (chartConfig ?s2))) sales_rows
              = [Undefined, Undefined, Undefined]"
    by (simp add: request_def sales_rows_def row_eval)
  have len: "length sales_rows = 3" by (simp add: sales_rows_def)
  from axis_selection_guard[of ?s1 sales_rows] a
  have n: "generateChartData ?s1 = ?s1" "aggregate sales_rows (chartConfig ?s1) = None"
    by blast+
  from axis_selection_guard[of ?s2 sales_rows] b obtain c where
    c: "aggregate sales_rows (chartConfig ?s2) = Some c"
       "labels c = map (\<lambda>row. row (xAxis (chartConfig ?s2))) sales_rows"
       "length (series_values c) = length sales_rows"
    by blast
  show ?thesis using n c unfolding ls len by simp
qed

text \<open>
  Claim C9. The handler reads the loaded rows and the configuration only: the series it
  stores is the one \<open>aggregate\<close> computes from them, whatever chart was there before;
  it leaves rows and configuration as they were, and running it again changes nothing.
\<close>

theorem handler_is_function_of_inputs:
  "generateChartData st =
     (case excelData st of None \<Rightarrow> st
      | Some D \<Rightarrow> (case aggregate D (chartConfig st) of None \<Rightarrow> st
                   | Some c \<Rightarrow> st\<lparr>chartData := Some c\<rparr>))
   \<and> generateChartData (generateChartData st) = generateChartData st
   \<and> excelData (generateChartData st) = excelData st
   \<and> chartConfig (generateChartData st) = chartConfig st"
  by (auto simp: aggregate_def generateChartData_def Let_def split: option.splits)

section \<open>The accumulator of the pie branch\<close>

lemma first_seen_snoc:
  "first_seen (xs @ [x]) = (if x \<in> set xs then first_seen xs else first_seen xs @ [x])"
  by (simp add: first_seen_def)

lemma set_first_seen: "set (first_seen xs) = set xs"
  by (simp add: first_seen_def)

lemma distinct_first_seen: "distinct (first_seen xs)"
  by (simp add: first_seen_def)

lemma pie_step_eq:
  "pie_step R agg r =
     set_prop agg (x_key R r)
       (js_plus (js_or (get_prop agg (x_key R r)) (Num (Fin 0))) (y_value R r))"
  by (simp add: pie_step_def x_key_def y_value_def Let_def)

lemma keys_put_own:
  "map fst (put_own obj k v) =
     (if k \<in> set (map fst obj) then map fst obj else map fst obj @ [k])"
  by (induction obj) (force+)

lemma map_of_put_own: "map_of (put_own obj k v) = (map_of obj)(k \<mapsto> v)"
  by (induction obj) (auto simp: fun_eq_iff)

lemma keys_set_prop:
  "map fst (set_prop obj k v) =
     (if k = ''__proto__'' \<or> k \<in> set (map fst obj) then map fst obj
      else map fst obj @ [k])"
  by (simp add: set_prop_def keys_put_own)

lemma get_set_prop:
  "get_prop (set_prop obj k v) k' =
     (if k' = k \<and> k \<noteq> ''__proto__'' then v else get_prop obj k')"
  by (simp add: set_prop_def get_prop_def map_of_put_own)

lemma pie_keys:
  "map fst (foldl (pie_step R) [] D) =
     filter (\<lambda>k. k \<noteq> ''__proto__'') (first_seen (map (x_key R) D))"
proof (induction D rule: rev_induct)
  case Nil
  show ?case by (simp add: first_seen_def)
next
  case (snoc r D)
  define agg where "agg = foldl (pie_step R) [] D"
  have IH: "map fst agg = filter (\<lambda>k. k \<noteq> ''__proto__'') (first_seen (map (x_key R) D))"
    unfolding agg_def by (rule snoc.IH)
  have mem: "x_key R r \<in> set (map fst agg)
             \<longleftrightarrow> x_key R r \<in> x_key R ` set D \<and> x_key R r \<noteq> ''__proto__''"
    unfolding IH by (auto simp: set_first_seen)
  have "map fst (foldl (pie_step R) [] (D @ [r])) = map fst (pie_step R agg r)"
    by (simp add: agg_def)
  also have "\<dots> = (if x_key R r = ''__proto__'' \<or> x_key R r \<in> set (map fst agg)
                     then map fst agg else map fst agg @ [x_key R r])"
    by (simp only: pie_step_eq keys_set_prop)
  also have "\<dots> = filter (\<lambda>k. k \<noteq> ''__proto__'') (first_seen (map (x_key R) (D @ [r])))"
    using mem by (auto simp: first_seen_snoc IH)
  finally show ?case .
qed

lemma pie_get:
  assumes "k \<noteq> ''__proto__''"
  shows "get_prop (foldl (pie_step R) [] D) k =
           running_total (object_prototype k) (map (y_value R) (filter (\<lambda>r. x_key R r = k) D))"
proof (induction D rule: rev_induct)
  case Nil
  show ?case by (simp add: get_prop_def running_total_def)
next
  case (snoc r D)
  define agg where "agg = foldl (pie_step R) [] D"
  have IH: "get_prop agg k =
      running_total (object_prototype k) (map (y_value R) (filter (\<lambda>r. x_key R r = k) D))"
    unfolding agg_def by (rule snoc.IH)
  have "get_prop (foldl (pie_step R) [] (D @ [r])) k = get_prop (pie_step R agg r) k"
    by (simp add: agg_def)
  also have "\<dots> = (if k = x_key R r
                     then js_plus (js_or (get_prop agg k) (Num (Fin 0))) (y_value R r)
                     else get_prop agg k)"
    using assms by (simp only: pie_step_eq get_set_prop) auto
  also have "\<dots> = running_total (object_prototype k)
                      (map (y_value R) (filter (\<lambda>r. x_key R r = k) (D @ [r])))"
    unfolding IH by (auto simp: running_total_def)
  finally show ?case .
qed

lemma set_own_entries: "set (own_entries obj) = set obj"
  by (auto simp: own_entries_def)

lemma distinct_own_entries:
  assumes "distinct (map fst obj)" shows "distinct (map fst (own_entries obj))"
proof -
  have d: "distinct obj" and i: "inj_on fst (set obj)"
    using assms by (simp_all add: distinct_map)
  have "distinct (own_entries obj)" using d by (auto simp: own_entries_def)
  moreover have "inj_on fst (set (own_entries obj))" using i by (simp add: set_own_entries)
  ultimately show ?thesis by (simp add: distinct_map)
qed

lemma map_of_own_entries:
  assumes "distinct (map fst obj)" shows "map_of (own_entries obj) = map_of obj"
  using map_of_inject_set[OF distinct_own_entries[OF assms] assms] set_own_entries by blast

lemma map_fst_insort:
  "map fst (insort_key (\<lambda>p. f (fst p)) p ps) = insort_key f (fst p) (map fst ps)"
  by (induction ps) auto

lemma map_fst_sort:
  "map fst (sort_key (\<lambda>p. f (fst p)) ps) = sort_key f (map fst ps)"
  by (induction ps) (auto simp: map_fst_insort)

lemma object_keys_eq:
  "object_keys obj =
     sort_key digits_val (filter is_array_index (map fst obj))
     @ filter (\<lambda>k. \<not> is_array_index k) (map fst obj)"
  by (simp add: object_keys_def own_entries_def map_fst_sort filter_map comp_def)

lemma aggregate_pie:
  assumes "cfg_type R = ''pie''" "xAxis R \<noteq> []" "yAxis R \<noteq> []"
  shows "\<exists>c. aggregate D R = Some c
           \<and> labels c = map Str (object_keys (foldl (pie_step R) [] D))
           \<and> series_values c = object_values (foldl (pie_step R) [] D)"
  using assms by (simp add: aggregate_def generateChartData_def series_values_def Let_def)

lemma map_of_zip_Str:
  "map_of (zip (map (Str \<circ> fst) es) (map snd es)) (Str k) = map_of es k"
  by (induction es) auto

lemma count_list_distinct:
  "distinct xs \<Longrightarrow> count_list xs x = (if x \<in> set xs then 1 else 0)"
  by (induction xs) auto

lemma pos_to_string_1: "pos_to_string 1 = ''1''"
  by code_simp

lemma rnd_big1: "rnd 9007199254740993 = Fin 9007199254740992"
  by code_simp

lemma rnd_big2: "rnd 9007199254740994 = Fin 9007199254740994"
  by code_simp

lemma pie_labels:
  assumes "cfg_type R = ''pie''" "xAxis R \<noteq> []" "yAxis R \<noteq> []"
    and "''__proto__'' \<notin> x_key R ` set D"
  shows "\<exists>c. aggregate D R = Some c
           \<and> labels c = map Str (object_keys (foldl (pie_step R) [] D))
           \<and> series_values c = object_values (foldl (pie_step R) [] D)
           \<and> map fst (foldl (pie_step R) [] D) = first_seen (map (x_key R) D)"
proof -
  have "filter (\<lambda>k. k \<noteq> ''__proto__'') (first_seen (map (x_key R) D))
          = first_seen (map (x_key R) D)"
    using assms(4) by (intro filter_True) (force simp: set_first_seen)
  then show ?thesis using aggregate_pie[OF assms(1-3), of D] by (simp add: pie_keys)
qed

text \<open>
  Claim C3 says that the pie keys come in first-seen order. A plain object lists the keys
  that are array indices first, in ascending numeric order: the year 2021 is seen before
  the year 2020 and comes after it in the output.
\<close>

theorem year_order_counterexample:
  "x_key (request ''pie'' ''year'' ''sales'') (year_rows ! 0) = ''2021''
   \<and> x_key (request ''pie'' ''year'' ''sales'') (year_rows ! 1) = ''2020''
   \<and> map_option labels (aggregate year_rows (request ''pie'' ''year'' ''sales''))
       = Some [Str ''2020'', Str ''2021'']"
  by (simp add: handler_eval year_rows_def parse_eval object_eval x_key_def)

text \<open>
  Claim C3, as amended. In a pie request with both axes set, and no key \<open>__proto__\<close>, the
  output keys are the distinct keys of the rows: the keys that are array indices come
  first, in ascending numeric order, and the other keys follow in first-seen order.
\<close>

theorem pie_key_order:
  assumes "cfg_type R = ''pie''" and "xAxis R \<noteq> []" and "yAxis R \<noteq> []"
    and "''__proto__'' \<notin> x_key R ` set D"
  shows "\<exists>c. aggregate D R = Some c
           \<and> labels c =
               map Str (sort_key digits_val
                          (filter is_array_index (first_seen (map (x_key R) D)))
                        @ filter (\<lambda>k. \<not> is_array_index k) (first_seen (map (x_key R) D)))"
  using pie_labels[OF assms] by (auto simp: object_keys_eq)

theorem pie_key_order_witness:
  "\<exists>c. aggregate ledger_rows (request ''pie'' ''item'' ''sales'') = Some c
     \<and> labels c = [Str ''3'', Str ''7'', Str ''tea'', Str ''coffee'']"
  using pie_key_order[of "request ''pie'' ''item'' ''sales''" ledger_rows]
  by (simp add: request_def ledger_rows_def row_eval x_key_def first_seen_def
      is_array_index_def is_digit_def digits_val_def digit_val_def)

text \<open>
  Claim C5 counts the distinct x-axis values. The number 1 and the string "1" are two
  values and give one key.
\<close>

theorem mixed_keys_counterexample:
  "(mixed_rows ! 0) ''id'' = Num (Fin 1) \<and> (mixed_rows ! 1) ''id'' = Str ''1''
   \<and> map_option labels (aggregate mixed_rows (request ''pie'' ''id'' ''sales''))
       = Some [Str ''1'']"
  by (simp add: handler_eval mixed_rows_def parse_eval object_eval pos_to_string_1)

text \<open>
  Claim C5, as amended. In a pie request with both axes set, and no key \<open>__proto__\<close>, the
  output keys are exactly the string forms of the rows' x-axis values, each once, so
  their number is the number of distinct string forms.
\<close>

theorem pie_keys_distinct:
  assumes "cfg_type R = ''pie''" and "xAxis R \<noteq> []" and "yAxis R \<noteq> []"
    and "''__proto__'' \<notin> x_key R ` set D"
  shows "\<exists>c. aggregate D R = Some c \<and> distinct (labels c)
           \<and> set (labels c) = Str ` x_key R ` set D
           \<and> length (labels c) = card (x_key R ` set D)"
proof -
  define agg where "agg = foldl (pie_step R) [] D"
  from pie_labels[OF assms] obtain c where c: "aggregate D R = Some c"
    "labels c = map Str (object_keys agg)" "map fst agg = first_seen (map (x_key R) D)"
    unfolding agg_def by blast
  have d: "distinct (map fst agg)" unfolding c(3) by (rule distinct_first_seen)
  have dk: "distinct (object_keys agg)"
    unfolding object_keys_def by (rule distinct_own_entries[OF d])
  have "set (object_keys agg) = set (map fst agg)"
    by (simp add: object_keys_def set_own_entries)
  then have sk: "set (object_keys agg) = x_key R ` set D"
    by (simp add: c(3) set_first_seen)
  have "distinct (labels c)" unfolding c(2) using dk by (simp add: distinct_map inj_on_def)
  moreover have "set (labels c) = Str ` x_key R ` set D" unfolding c(2) by (simp add: sk)
  moreover have "length (labels c) = card (x_key R ` set D)"
    unfolding c(2) using distinct_card[OF dk] sk by simp
  ultimately show ?thesis using c(1) by blast
qed

theorem pie_keys_distinct_witness:
  "\<exists>c. aggregate mixed_rows (request ''pie'' ''id'' ''sales'') = Some c \<and> distinct (labels c)
     \<and> set (labels c) = {Str ''1''} \<and> length (labels c) = 1"
  using pie_keys_distinct[of "request ''pie'' ''id'' ''sales''" mixed_rows]
  by (simp add: request_def mixed_rows_def row_eval x_key_def pos_to_string_1)

section \<open>Doubles and printed numbers\<close>

lemma is_double_rnd: "is_double (rnd q)"
  by (cases "rnd q") (simp_all add: rnd_idem)




lemma is_double_add: "is_double (js_add a b)"
  by (cases a; cases b) (simp_all add: is_double_rnd)



lemma rnd_0: "rnd 0 = Fin 0"
  by (simp add: rnd_def)



lemma js_add_zero_right: "is_double n \<Longrightarrow> js_add n (Fin 0) = n"
  by (cases n) simp_all

lemma js_plus_double: "js_plus a b = Num n \<Longrightarrow> is_double n"
  by (cases a; cases b) (auto simp: is_double_add)














lemma pie_get_num_double:
  "get_prop (foldl (pie_step R) [] D) k = Num n \<Longrightarrow> is_double n"
proof (induction D arbitrary: n rule: rev_induct)
  case Nil
  then show ?case
    by (simp add: get_prop_def object_prototype_def native_function_def split: if_splits)
next
  case (snoc r D)
  define agg where "agg = foldl (pie_step R) [] D"
  have IH: "\<And>n. get_prop agg k = Num n \<Longrightarrow> is_double n"
    unfolding agg_def by (rule snoc.IH)
  have "get_prop (pie_step R agg r) k = Num n" using snoc.prems by (simp add: agg_def)
  then show ?case
    by (auto simp: pie_step_eq get_set_prop split: if_splits dest: js_plus_double IH)
qed

lemma proto_not_own: "map_of (foldl (pie_step R) [] D) ''__proto__'' = None"
proof -
  have "''__proto__'' \<notin> set (map fst (foldl (pie_step R) [] D))"
    unfolding pie_keys by simp
  then show ?thesis by (simp add: map_of_eq_None_iff)
qed

lemma get_proto: "get_prop (foldl (pie_step R) [] D) ''__proto__'' = Obj ''[object Object]''"
  by (simp add: get_prop_def proto_not_own object_prototype_def)

lemma add_zero_total:
  assumes "is_double n" "n \<noteq> NaN"
  shows "js_plus (js_or (Num n) (Num (Fin 0))) (Num (Fin 0)) = Num n"
  using assms by (cases n) (auto simp: js_or_def rnd_0)


section \<open>Sums of integer values\<close>

text \<open>
  Claim C2 equates the sum of the pie values with the sum of the rows' values. Sums of
  doubles are rounded: with the values 9007199254740992, 1, 1, 1 for the keys A, B, B, A
  the pie values are 9007199254740992 and 2, whose sum is neither the exact sum of the
  four values nor what adding them in row order gives.
\<close>

theorem rounded_sum_counterexample:
  "map (y_value (request ''pie'' ''region'' ''sales'')) big_rows
     = [Num (Fin 9007199254740992), Num (Fin 1), Num (Fin 1), Num (Fin 1)]
   \<and> map_option series_mapping (aggregate big_rows (request ''pie'' ''region'' ''sales''))
     = Some [(Str ''A'', Num (Fin 9007199254740992)), (Str ''B'', Num (Fin 2))]
   \<and> js_sum [Num (Fin 9007199254740992), Num (Fin 2)] = Num (Fin 9007199254740994)
   \<and> js_sum [Num (Fin 9007199254740992), Num (Fin 1), Num (Fin 1), Num (Fin 1)]
     = Num (Fin 9007199254740992)
   \<and> (9007199254740992 + 2 :: rat) \<noteq> 9007199254740992 + 1 + 1 + 1"
  by (simp add: handler_eval big_rows_def parse_eval object_eval series_mapping_def
      y_value_def js_sum_def rnd_big1 rnd_big2)

lemma js_plus_ints:
  "\<bar>a + b\<bar> \<le> 2 ^ 53 \<Longrightarrow>
     js_plus (Num (Fin (of_int a))) (Num (Fin (of_int b))) = Num (Fin (of_int (a + b)))"
  using rnd_int[of "a + b"] by simp

lemma js_or_int: "js_or (Num (Fin (of_int s))) (Num (Fin 0)) = Num (Fin (of_int s))"
  by (simp add: js_or_def)

lemma foldl_plus_ints:
  "\<bar>s\<bar> + (\<Sum>n\<leftarrow>zs. \<bar>n\<bar>) \<le> 2 ^ 53 \<Longrightarrow>
     foldl js_plus (Num (Fin (of_int s))) (map (\<lambda>n. Num (Fin (of_int n))) zs)
       = Num (Fin (of_int (s + sum_list zs)))"
proof (induction zs arbitrary: s)
  case Nil
  show ?case by simp
next
  case (Cons n zs)
  have b: "\<bar>s + n\<bar> \<le> 2 ^ 53" using Cons.prems sum_list_abs[of zs] by simp
  have r: "rnd (of_int s + of_int n) = Fin (of_int s + of_int n)"
    using rnd_int[OF b] by simp
  have "\<bar>s + n\<bar> + (\<Sum>n\<leftarrow>zs. \<bar>n\<bar>) \<le> 2 ^ 53" using Cons.prems by simp
  from Cons.IH[OF this] show ?case by (simp add: r add.assoc)
qed

lemma running_ints:
  "\<bar>s\<bar> + (\<Sum>n\<leftarrow>zs. \<bar>n\<bar>) \<le> 2 ^ 53 \<Longrightarrow>
     running_total (Num (Fin (of_int s))) (map (\<lambda>n. Num (Fin (of_int n))) zs)
       = Num (Fin (of_int (s + sum_list zs)))"
proof (induction zs arbitrary: s)
  case Nil
  show ?case by (simp add: running_total_def)
next
  case (Cons n zs)
  have b: "\<bar>s + n\<bar> \<le> 2 ^ 53" using Cons.prems sum_list_abs[of zs] by simp
  have r: "rnd (of_int s + of_int n) = Fin (of_int s + of_int n)"
    using rnd_int[OF b] by simp
  have "\<bar>s + n\<bar> + (\<Sum>n\<leftarrow>zs. \<bar>n\<bar>) \<le> 2 ^ 53" using Cons.prems by simp
  from Cons.IH[OF this] show ?case
    by (simp add: running_total_def js_or_int r add.assoc)
qed

lemma running_ints_fresh:
  assumes "zs \<noteq> []" and "(\<Sum>n\<leftarrow>zs. \<bar>n\<bar>) \<le> 2 ^ 53"
  shows "running_total Undefined (map (\<lambda>n. Num (Fin (of_int n))) zs)
           = Num (Fin (of_int (sum_list zs)))"
proof -
  obtain n ns where zs: "zs = n # ns" using assms(1) by (cases zs) auto
  have b: "\<bar>0 + n\<bar> \<le> 2 ^ 53" using assms(2) sum_list_abs[of ns] by (simp add: zs)
  have first: "js_plus (js_or Undefined (Num (Fin 0))) (Num (Fin (of_int n)))
                 = Num (Fin (of_int n))"
    using js_plus_ints[OF b] by (simp add: js_or_def)
  have "running_total Undefined (map (\<lambda>n. Num (Fin (of_int n))) zs)
          = running_total (Num (Fin (of_int n))) (map (\<lambda>n. Num (Fin (of_int n))) ns)"
    by (simp add: zs running_total_def first)
  also have "\<dots> = Num (Fin (of_int (n + sum_list ns)))"
    using assms(2) by (intro running_ints) (simp add: zs)
  finally show ?thesis by (simp add: zs)
qed

lemma sum_list_pick0:
  "a \<notin> set ks \<Longrightarrow> (\<Sum>k\<leftarrow>ks. if a = k then c else 0) = (0::int)"
  by (induction ks) auto

lemma sum_list_pick:
  "distinct ks \<Longrightarrow> a \<in> set ks \<Longrightarrow> (\<Sum>k\<leftarrow>ks. if a = k then c else 0) = (c::int)"
  by (induction ks) (auto simp: sum_list_pick0)

lemma sum_list_zero: "(\<Sum>k\<leftarrow>ks. (0::int)) = 0"
  by (induction ks) auto

lemma group_sum:
  assumes "distinct ks" and "f ` set D \<subseteq> set ks"
  shows "(\<Sum>k\<leftarrow>ks. \<Sum>r\<leftarrow>filter (\<lambda>r. f r = k) D. g r) = (\<Sum>r\<leftarrow>D. (g r :: int))"
  using assms(2)
proof (induction D)
  case Nil
  show ?case by (simp add: sum_list_zero)
next
  case (Cons r D)
  have "(\<Sum>k\<leftarrow>ks. \<Sum>r'\<leftarrow>filter (\<lambda>r'. f r' = k) (r # D). g r')
          = (\<Sum>k\<leftarrow>ks. (if f r = k then g r else 0) + (\<Sum>r'\<leftarrow>filter (\<lambda>r'. f r' = k) D. g r'))"
    by (intro arg_cong[where f = sum_list] map_cong) auto
  also have "\<dots> = (\<Sum>k\<leftarrow>ks. if f r = k then g r else 0)
                   + (\<Sum>k\<leftarrow>ks. \<Sum>r'\<leftarrow>filter (\<lambda>r'. f r' = k) D. g r')"
    by (simp add: sum_list_addf)
  also have "\<dots> = g r + (\<Sum>r\<leftarrow>D. g r)"
    using Cons sum_list_pick[OF assms(1), of "f r" "g r"] by simp
  finally show ?case by simp
qed

lemma sum_list_abs_le: "(\<Sum>k\<leftarrow>ks. \<bar>t k\<bar>) \<le> (\<Sum>k\<leftarrow>ks. u k)" if "\<And>k. \<bar>t k\<bar> \<le> (u k :: int)"
  using that by (induction ks) (auto intro: add_mono)

text \<open>
  Claim C2, as amended. In a pie request with both axes set, where no key is a property
  name of \<open>Object.prototype\<close> and the coerced y-axis values are integers whose absolute
  values add up to at most \<open>2\<^sup>5\<^sup>3\<close>, the sum of the output values and the sum of the
  rows' values both equal the exact sum.
\<close>

theorem pie_sum_exact:
  assumes "cfg_type R = ''pie''" and "xAxis R \<noteq> []" and "yAxis R \<noteq> []"
    and np: "\<forall>r \<in> set D. object_prototype (x_key R r) = Undefined"
    and iv: "\<forall>r \<in> set D. is_integer_value (y_value R r)"
    and bd: "(\<Sum>r\<leftarrow>D. \<bar>int_value (y_value R r)\<bar>) \<le> 2 ^ 53"
  shows "\<exists>c. aggregate D R = Some c
           \<and> js_sum (series_values c) = Num (Fin (of_int (\<Sum>r\<leftarrow>D. int_value (y_value R r))))
           \<and> js_sum (map (y_value R) D)
               = Num (Fin (of_int (\<Sum>r\<leftarrow>D. int_value (y_value R r))))"
proof -
  define z where "z r = int_value (y_value R r)" for r
  define t where "t k = (\<Sum>r\<leftarrow>filter (\<lambda>r. x_key R r = k) D. z r)" for k
  define agg where "agg = foldl (pie_step R) [] D"
  have yz: "y_value R r = Num (Fin (of_int (z r)))" if "r \<in> set D" for r
    using iv that by (simp add: is_integer_value_def z_def)
  have bz: "(\<Sum>r\<leftarrow>D. \<bar>z r\<bar>) \<le> 2 ^ 53" using bd by (simp add: z_def)
  have nproto: "''__proto__'' \<notin> x_key R ` set D"
  proof
    assume "''__proto__'' \<in> x_key R ` set D"
    then obtain r where "r \<in> set D" "x_key R r = ''__proto__''" by auto
    with np show False by (auto simp: object_prototype_def)
  qed
  from pie_labels[OF assms(1-3) nproto] obtain c where c: "aggregate D R = Some c"
    "series_values c = object_values agg" "map fst agg = first_seen (map (x_key R) D)"
    unfolding agg_def by blast
  have d: "distinct (map fst agg)" unfolding c(3) by (rule distinct_first_seen)
  have ks: "set (map fst agg) = x_key R ` set D" unfolding c(3) by (simp add: set_first_seen)
  have maps: "map (y_value R) D = map (\<lambda>n. Num (Fin (of_int n))) (map z D)"
    using yz by simp
  have rows: "js_sum (map (y_value R) D) = Num (Fin (of_int (\<Sum>r\<leftarrow>D. z r)))"
    unfolding maps js_sum_def
    using foldl_plus_ints[of 0 "map z D"] bz by (simp add: comp_def)
  have sub_le: "(\<Sum>r\<leftarrow>filter P D. \<bar>z r\<bar>) \<le> (\<Sum>r\<leftarrow>D. \<bar>z r\<bar>)" for P
    by (induction D) auto
  have entry: "snd p = Num (Fin (of_int (t (fst p))))" if "p \<in> set agg" for p
  proof -
    obtain k v where p: "p = (k, v)" by (cases p)
    have kin: "k \<in> x_key R ` set D" using that ks p by force
    then obtain r where r: "r \<in> set D" "x_key R r = k" by auto
    have "x_key R r \<in> x_key R ` set D" using r(1) by (rule imageI)
    then have kmem: "k \<in> x_key R ` set D" by (simp only: r(2))
    have k1: "k \<noteq> ''__proto__''"
    proof
      assume "k = ''__proto__''"
      with kmem have "''__proto__'' \<in> x_key R ` set D" by (simp only:)
      then show False by (rule notE[OF nproto])
    qed
    have k2: "object_prototype k = Undefined" using np r by auto
    have "map_of agg k = Some v" using d that p by simp
    then have "v = get_prop agg k" by (simp add: get_prop_def)
    also have "\<dots> = running_total Undefined
                       (map (y_value R) (filter (\<lambda>r. x_key R r = k) D))"
      unfolding agg_def using pie_get[OF k1, of R D] by (simp add: k2)
    also have "map (y_value R) (filter (\<lambda>r. x_key R r = k) D)
                 = map (\<lambda>n. Num (Fin (of_int n))) (map z (filter (\<lambda>r. x_key R r = k) D))"
      using yz by simp
    also have "running_total Undefined \<dots> = Num (Fin (of_int (t k)))"
      unfolding t_def
    proof (rule running_ints_fresh)
      show "map z (filter (\<lambda>r. x_key R r = k) D) \<noteq> []" using r by (auto simp: filter_empty_conv)
      have "(\<Sum>n\<leftarrow>map z (filter (\<lambda>r. x_key R r = k) D). \<bar>n\<bar>)
              = (\<Sum>r\<leftarrow>filter (\<lambda>r. x_key R r = k) D. \<bar>z r\<bar>)"
        by (simp add: comp_def)
      with sub_le[of "\<lambda>r. x_key R r = k"] bz
      show "(\<Sum>n\<leftarrow>map z (filter (\<lambda>r. x_key R r = k) D). \<bar>n\<bar>) \<le> 2 ^ 53" by linarith
    qed
    finally show ?thesis by (simp add: p)
  qed
  define es where "es = own_entries agg"
  have ses: "set es = set agg" unfolding es_def by (rule set_own_entries)
  have des: "distinct (map fst es)" unfolding es_def by (rule distinct_own_entries[OF d])
  have sub: "x_key R ` set D \<subseteq> set (map fst es)" using ses ks by auto
  have vals: "object_values agg = map (\<lambda>n. Num (Fin (of_int n))) (map t (map fst es))"
    unfolding object_values_def es_def[symmetric] using entry ses by simp
  have tot: "(\<Sum>k\<leftarrow>map fst es. t k) = (\<Sum>r\<leftarrow>D. z r)"
    unfolding t_def by (rule group_sum[OF des sub])
  have "(\<Sum>k\<leftarrow>map fst es. \<bar>t k\<bar>)
          \<le> (\<Sum>k\<leftarrow>map fst es. \<Sum>r\<leftarrow>filter (\<lambda>r. x_key R r = k) D. \<bar>z r\<bar>)"
  proof (rule sum_list_abs_le)
    fix k
    show "\<bar>t k\<bar> \<le> (\<Sum>r\<leftarrow>filter (\<lambda>r. x_key R r = k) D. \<bar>z r\<bar>)"
      unfolding t_def using sum_list_abs[of "map z (filter (\<lambda>r. x_key R r = k) D)"]
      by (simp add: comp_def)
  qed
  also have "\<dots> = (\<Sum>r\<leftarrow>D. \<bar>z r\<bar>)" by (rule group_sum[OF des sub])
  finally have tb: "(\<Sum>k\<leftarrow>map fst es. \<bar>t k\<bar>) \<le> 2 ^ 53" using bz by simp
  have "(\<Sum>n\<leftarrow>map t (map fst es). \<bar>n\<bar>) = (\<Sum>k\<leftarrow>map fst es. \<bar>t k\<bar>)" by (simp add: comp_def)
  with tb have "\<bar>0::int\<bar> + (\<Sum>n\<leftarrow>map t (map fst es). \<bar>n\<bar>) \<le> 2 ^ 53" by simp
  from foldl_plus_ints[OF this]
  have out: "js_sum (series_values c) = Num (Fin (of_int (\<Sum>r\<leftarrow>D. z r)))"
    unfolding c(2) vals js_sum_def using tot by (simp add: comp_def)
  show ?thesis using c(1) out rows unfolding z_def by blast
qed

theorem pie_sum_exact_witness:
  "(\<Sum>r\<leftarrow>sales_rows. \<bar>int_value (y_value (request ''pie'' ''region'' ''sales'') r)\<bar>) = 35
   \<and> (\<exists>c. aggregate sales_rows (request ''pie'' ''region'' ''sales'') = Some c
          \<and> js_sum (series_values c) = Num (Fin 35)
          \<and> js_sum (map (y_value (request ''pie'' ''region'' ''sales'')) sales_rows)
              = Num (Fin 35))"
proof -
  let ?R = "request ''pie'' ''region'' ''sales''"
  have ax: "cfg_type ?R = ''pie''" "xAxis ?R \<noteq> []" "yAxis ?R \<noteq> []"
    by (simp_all add: request_def)
  have ys: "map (y_value ?R) sales_rows = [Num (Fin 10), Num (Fin 20), Num (Fin 5)]"
    by (simp add: sales_rows_def row_eval y_value_def request_def parseFloat_or_0_def
        parseFloat_def js_or_def parse_eval)
  have xs: "map (x_key ?R) sales_rows = [''A'', ''B'', ''A'']"
    by (simp add: sales_rows_def row_eval x_key_def request_def)
  have np: "\<forall>r \<in> set sales_rows. object_prototype (x_key ?R r) = Undefined"
  proof
    fix r assume "r \<in> set sales_rows"
    then have "x_key ?R r \<in> set (map (x_key ?R) sales_rows)" by simp
    then show "object_prototype (x_key ?R r) = Undefined"
      unfolding xs by (auto simp: object_prototype_def proto_functions_def)
  qed
  have iv: "\<forall>r \<in> set sales_rows. is_integer_value (y_value ?R r)"
  proof
    fix r assume "r \<in> set sales_rows"
    then have "y_value ?R r \<in> set (map (y_value ?R) sales_rows)" by simp
    then show "is_integer_value (y_value ?R r)"
      unfolding ys by (auto simp: is_integer_value_def)
  qed
  have "(\<Sum>r\<leftarrow>sales_rows. \<bar>int_value (y_value ?R r)\<bar>)
          = (\<Sum>v\<leftarrow>map (y_value ?R) sales_rows. \<bar>int_value v\<bar>)"
    by (simp add: comp_def)
  then have sa: "(\<Sum>r\<leftarrow>sales_rows. \<bar>int_value (y_value ?R r)\<bar>) = 35" unfolding ys by simp
  have "(\<Sum>r\<leftarrow>sales_rows. int_value (y_value ?R r))
          = (\<Sum>v\<leftarrow>map (y_value ?R) sales_rows. int_value v)"
    by (simp add: comp_def)
  then have su: "(\<Sum>r\<leftarrow>sales_rows. int_value (y_value ?R r)) = 35" unfolding ys by simp
  have bd: "(\<Sum>r\<leftarrow>sales_rows. \<bar>int_value (y_value ?R r)\<bar>) \<le> 2 ^ 53" unfolding sa by simp
  from pie_sum_exact[OF ax np iv bd] show ?thesis unfolding su using sa by simp
qed

section \<open>Cells without a number, and merged keys\<close>

text \<open>
  \<open>parseFloat\<close> gives NaN exactly for the strings without a leading number.
\<close>

lemma rnd_pos_not_nan: "rnd_pos a \<noteq> NaN"
  by (simp add: rnd_pos_def Let_def)

lemma js_neg_nan_iff: "js_neg n = NaN \<longleftrightarrow> n = NaN"
  by (cases n) simp_all

lemma rnd_not_nan: "rnd q \<noteq> NaN"
  by (simp add: rnd_def rnd_pos_not_nan js_neg_nan_iff)

lemma not_digit_point: "\<not> is_digit (CHR ''.'')"
  by (simp add: is_digit_def)

lemma unsigned_nan_iff:
  "unsigned_literal u = NaN \<longleftrightarrow>
     \<not> (take 8 u = ''Infinity''
        \<or> (case u of [] \<Rightarrow> False
            | c # r \<Rightarrow> is_digit c
                \<or> (c = CHR ''.'' \<and> (case r of [] \<Rightarrow> False | d # _ \<Rightarrow> is_digit d))))"
proof (cases "take 8 u = ''Infinity''")
  case True
  then show ?thesis by (simp add: unsigned_literal_def)
next
  case inf: False
  show ?thesis
  proof (cases u)
    case Nil
    then show ?thesis by (simp add: unsigned_literal_def)
  next
    case (Cons c r)
    show ?thesis
    proof (cases "is_digit c")
      case True
      then show ?thesis using inf Cons by (simp add: unsigned_literal_def Let_def rnd_not_nan)
    next
      case nd: False
      show ?thesis
      proof (cases "c = CHR ''.''")
        case True
        show ?thesis
        proof (cases r)
          case Nil
          then show ?thesis using inf Cons True nd
            by (simp add: unsigned_literal_def Let_def)
        next
          case (Cons d r')
          then show ?thesis using inf \<open>u = c # r\<close> True nd
            by (simp add: unsigned_literal_def Let_def rnd_not_nan)
        qed
      next
        case False
        then show ?thesis using inf Cons nd by (simp add: unsigned_literal_def Let_def)
      qed
    qed
  qed
qed

lemma parse_nan_iff: "parse_float_str s = NaN \<longleftrightarrow> \<not> starts_with_number s"
proof (cases "dropWhile is_space s")
  case Nil
  show ?thesis unfolding parse_float_str_def starts_with_number_def Nil by simp
next
  case (Cons c t)
  show ?thesis
  proof (cases "c = CHR ''-'' \<or> c = CHR ''+''")
    case True
    then show ?thesis using Cons
      by (auto simp: parse_float_str_def starts_with_number_def Let_def js_neg_nan_iff
          unsigned_nan_iff)
  next
    case False
    then show ?thesis using Cons
      by (simp add: parse_float_str_def starts_with_number_def Let_def
          unsigned_nan_iff[of "c # t"])
  qed
qed

lemma no_leading_number_undefined: "no_leading_number Undefined"
  by (simp add: no_leading_number_def starts_with_number_def is_space_def is_digit_def)

lemma y_value_no_number:
  assumes "r (yAxis R) = Undefined \<or> no_leading_number (r (yAxis R))"
  shows "y_value R r = Num (Fin 0)"
proof -
  have "no_leading_number (r (yAxis R))" using assms no_leading_number_undefined by auto
  then have "parse_float_str (to_string (r (yAxis R))) = NaN"
    by (simp add: no_leading_number_def parse_nan_iff)
  then show ?thesis
    by (simp add: y_value_def parseFloat_or_0_def parseFloat_def js_or_def)
qed

lemma pie_output_value:
  assumes "cfg_type R = ''pie''" and "xAxis R \<noteq> []" and "yAxis R \<noteq> []"
    and np: "object_prototype k = Undefined" and kin: "k \<in> x_key R ` set D"
    and agg: "aggregate D R = Some c"
  shows "count_list (labels c) (Str k) = 1
         \<and> map_of (series_mapping c) (Str k)
             = Some (running_total Undefined
                       (map (y_value R) (filter (\<lambda>r. x_key R r = k) D)))"
proof -
  have k1: "k \<noteq> ''__proto__''" using np by (auto simp: object_prototype_def)
  define agg where "agg = foldl (pie_step R) [] D"
  from aggregate_pie[OF assms(1-3), of D] agg
  have c: "labels c = map Str (object_keys agg)" "series_values c = object_values agg"
    unfolding agg_def by auto
  have keys: "map fst agg = filter (\<lambda>k. k \<noteq> ''__proto__'') (first_seen (map (x_key R) D))"
    unfolding agg_def by (rule pie_keys)
  have d: "distinct (map fst agg)" unfolding keys by (simp add: distinct_first_seen)
  have kin': "k \<in> set (map fst agg)"
    unfolding keys using kin k1 by (simp add: set_first_seen)
  have dk: "distinct (object_keys agg)"
    unfolding object_keys_def by (rule distinct_own_entries[OF d])
  have "set (object_keys agg) = set (map fst agg)"
    by (simp add: object_keys_def set_own_entries)
  with kin' have kin'': "k \<in> set (object_keys agg)" by simp
  have "distinct (labels c)" unfolding c(1) using dk by (simp add: distinct_map inj_on_def)
  moreover have "Str k \<in> set (labels c)" unfolding c(1) using kin'' by simp
  ultimately have one: "count_list (labels c) (Str k) = 1" by (simp add: count_list_distinct)
  have "map_of (series_mapping c) (Str k) = map_of (own_entries agg) k"
    by (simp add: series_mapping_def c object_keys_def object_values_def map_of_zip_Str)
  also have "\<dots> = map_of agg k" by (simp add: map_of_own_entries[OF d])
  finally have m: "map_of (series_mapping c) (Str k) = map_of agg k" .
  obtain w where w: "map_of agg k = Some w"
    using kin' by (cases "map_of agg k") (auto simp: map_of_eq_None_iff)
  then have "get_prop agg k = w" by (simp add: get_prop_def)
  then have "map_of (series_mapping c) (Str k)
      = Some (running_total Undefined (map (y_value R) (filter (\<lambda>r. x_key R r = k) D)))"
    using pie_get[OF k1, of R D] m w by (simp add: agg_def np)
  with one show ?thesis by blast
qed

lemma js_plus_fin_not_nan:
  "n \<noteq> NaN \<Longrightarrow> \<exists>m. js_plus (Num n) (Num (Fin q)) = Num m \<and> m \<noteq> NaN"
  by (cases n) (simp_all add: rnd_not_nan)

lemma js_or_num_zero:
  "n \<noteq> NaN \<Longrightarrow> js_or (Num n) (Num (Fin 0)) = Num n"
  by (auto simp: js_or_def)

lemma running_eq_fold:
  assumes "n \<noteq> NaN" and "\<forall>v \<in> set vs. \<exists>q. v = Num (Fin q)"
  shows "running_total (Num n) vs = foldl js_plus (Num n) vs"
  using assms
proof (induction vs arbitrary: n)
  case Nil
  show ?case by (simp add: running_total_def)
next
  case (Cons v vs)
  obtain q where v: "v = Num (Fin q)" using Cons.prems(2) by auto
  obtain m where m: "js_plus (Num n) (Num (Fin q)) = Num m" "m \<noteq> NaN"
    using js_plus_fin_not_nan[OF Cons.prems(1)] by blast
  have "running_total (Num n) (v # vs) = running_total (Num m) vs"
    using m(1) by (simp add: running_total_def js_or_num_zero[OF Cons.prems(1)] v)
  also have "\<dots> = foldl js_plus (Num m) vs"
    using Cons.prems(2) by (intro Cons.IH[OF m(2)]) simp
  also have "\<dots> = foldl js_plus (Num n) (v # vs)" using m(1) by (simp add: v)
  finally show ?case .
qed

lemma running_undefined_sum:
  assumes "\<forall>v \<in> set vs. \<exists>q. v = Num (Fin q)" and "vs \<noteq> []"
  shows "running_total Undefined vs = js_sum vs"
proof -
  obtain v vs' where vs: "vs = v # vs'" using assms(2) by (cases vs) auto
  obtain q where v: "v = Num (Fin q)" using assms(1) vs by auto
  obtain m where m: "js_plus (Num (Fin 0)) (Num (Fin q)) = Num m" "m \<noteq> NaN"
    using js_plus_fin_not_nan[of "Fin 0" q] by auto
  have "running_total Undefined vs = running_total (Num m) vs'"
    using m(1) by (simp add: running_total_def vs v js_or_def)
  also have "\<dots> = foldl js_plus (Num m) vs'"
    using assms(1) vs by (intro running_eq_fold[OF m(2)]) simp
  also have "\<dots> = js_sum vs" using m(1) by (simp add: js_sum_def vs v)
  finally show ?thesis .
qed

lemma fold_fin_shape:
  assumes "n \<noteq> NaN" "is_double n" and "\<forall>v \<in> set vs. \<exists>q. v = Num (Fin q)"
  shows "\<exists>m. foldl js_plus (Num n) vs = Num m \<and> m \<noteq> NaN \<and> is_double m"
  using assms
proof (induction vs arbitrary: n)
  case Nil
  then show ?case by simp
next
  case (Cons v vs)
  obtain q where v: "v = Num (Fin q)" using Cons.prems(3) by auto
  obtain m where m: "js_plus (Num n) (Num (Fin q)) = Num m" "m \<noteq> NaN"
    using js_plus_fin_not_nan[OF Cons.prems(1)] by blast
  have dm: "is_double m" using m(1) by (rule js_plus_double)
  have e: "js_add n (Fin q) = m" using m(1) by simp
  from Cons.IH[OF m(2) dm] Cons.prems(3) show ?case by (simp add: v e)
qed

lemma sum_skip_zero:
  assumes "\<forall>v \<in> set vs1. \<exists>q. v = Num (Fin q)"
  shows "js_sum (vs1 @ [Num (Fin 0)] @ vs2) = js_sum (vs1 @ vs2)"
proof -
  obtain m where m: "foldl js_plus (Num (Fin 0)) vs1 = Num m" "m \<noteq> NaN" "is_double m"
    using fold_fin_shape[of "Fin 0" vs1] assms by (auto simp: rnd_0)
  have "js_plus (Num m) (Num (Fin 0)) = Num m" using m(3) by (simp add: js_add_zero_right)
  then show ?thesis by (simp add: js_sum_def m(1))
qed

text \<open>
  Claim C6 says that a non-numeric or missing y-axis cell contributes exactly 0.
  \<open>parseFloat\<close> reads the longest leading numeral, so the cell \<open>12abc\<close> counts as 12.
  And the running total of a pie key is restarted from 0 when it is NaN: with the cells
  \<open>Infinity\<close>, \<open>-Infinity\<close> and \<open>abc\<close> under one key the value of the key is NaN after
  two rows and 0 after the third, so the row with \<open>abc\<close> changes the value.
\<close>

theorem nan_total_counterexample:
  "y_value (request ''bar'' ''region'' ''sales'')
      (mk_row [(''region'', Str ''A''), (''sales'', Str ''12abc'')]) = Num (Fin 12)
   \<and> no_leading_number ((inf_rows ! 2) ''sales'')
   \<and> map_option series_mapping
        (aggregate (take 2 inf_rows) (request ''pie'' ''region'' ''sales''))
       = Some [(Str ''A'', Num NaN)]
   \<and> map_option series_mapping (aggregate inf_rows (request ''pie'' ''region'' ''sales''))
       = Some [(Str ''A'', Num (Fin 0))]"
  by (simp add: handler_eval inf_rows_def parse_eval object_eval series_mapping_def
      y_value_def no_leading_number_def starts_with_number_def rnd_0)

text \<open>
  Claim C6, as amended. A series is produced whatever the cells are. A y-axis cell that
  is missing, or whose text has no leading number (after white space and one sign there
  is neither a digit, nor a point followed by a digit, nor \<open>Infinity\<close>), is coerced to
  exactly 0. In a bar, line or scatter chart the value of that row is 0. In a pie chart,
  when the key of the row is not a property name of \<open>Object.prototype\<close> and all rows
  with that key have finite values, the key appears once in the output and its value is
  the sum of the values of the other rows with that key. In a bar, line or scatter chart
  a row whose x-axis cell reads \<open>undefined\<close> has the label \<open>undefined\<close>.
\<close>

theorem unparsable_cell_counts_zero:
  assumes "xAxis R \<noteq> []" and "yAxis R \<noteq> []" and "i < length D"
  shows "\<exists>c. aggregate D R = Some c
     \<and> (cfg_type R \<noteq> ''pie'' \<and> (D ! i) (xAxis R) = Undefined \<longrightarrow> labels c ! i = Undefined)
     \<and> ((D ! i) (yAxis R) = Undefined \<or> no_leading_number ((D ! i) (yAxis R)) \<longrightarrow>
          y_value R (D ! i) = Num (Fin 0)
          \<and> (cfg_type R \<noteq> ''pie'' \<longrightarrow> series_values c ! i = Num (Fin 0))
          \<and> (cfg_type R = ''pie'' \<and> object_prototype (x_key R (D ! i)) = Undefined
               \<and> (\<forall>r \<in> set D. x_key R r = x_key R (D ! i) \<longrightarrow>
                      (\<exists>q. y_value R r = Num (Fin q))) \<longrightarrow>
             count_list (labels c) (Str (x_key R (D ! i))) = 1
             \<and> map_of (series_mapping c) (Str (x_key R (D ! i)))
                 = Some (js_sum (map (y_value R)
                           (filter (\<lambda>r. x_key R r = x_key R (D ! i))
                              (take i D @ drop (Suc i) D))))))"
proof -
  define k where "k = x_key R (D ! i)"
  have "\<exists>c. aggregate D R = Some c"
    using assms(1,2) by (simp add: aggregate_def generateChartData_def Let_def)
  then obtain c where c: "aggregate D R = Some c" by blast
  have bar: "labels c ! i = (D ! i) (xAxis R) \<and> series_values c ! i = y_value R (D ! i)"
    if "cfg_type R \<noteq> ''pie''"
    using that assms c
    by (auto simp: aggregate_def generateChartData_def series_values_def Let_def y_value_def)
  have pie: "count_list (labels c) (Str k) = 1
             \<and> map_of (series_mapping c) (Str k)
                 = Some (js_sum (map (y_value R)
                           (filter (\<lambda>r. x_key R r = k) (take i D @ drop (Suc i) D))))"
    if y0: "y_value R (D ! i) = Num (Fin 0)" and p: "cfg_type R = ''pie''"
      and np: "object_prototype k = Undefined"
      and fin: "\<forall>r \<in> set D. x_key R r = k \<longrightarrow> (\<exists>q. y_value R r = Num (Fin q))"
  proof -
    have kin: "k \<in> x_key R ` set D" using assms(3) by (auto simp: k_def)
    note out = pie_output_value[OF p assms(1,2) np kin c]
    have D: "D = take i D @ D ! i # drop (Suc i) D"
      using assms(3) by (rule id_take_nth_drop)
    define vs1 where "vs1 = map (y_value R) (filter (\<lambda>r. x_key R r = k) (take i D))"
    define vs2 where "vs2 = map (y_value R) (filter (\<lambda>r. x_key R r = k) (drop (Suc i) D))"
    have "filter (\<lambda>r. x_key R r = k) D
            = filter (\<lambda>r. x_key R r = k) (take i D) @ D ! i
              # filter (\<lambda>r. x_key R r = k) (drop (Suc i) D)"
      by (subst D) (simp add: k_def)
    then have all: "map (y_value R) (filter (\<lambda>r. x_key R r = k) D)
                      = vs1 @ [Num (Fin 0)] @ vs2"
      by (simp add: vs1_def vs2_def y0)
    have rest: "map (y_value R) (filter (\<lambda>r. x_key R r = k) (take i D @ drop (Suc i) D))
                  = vs1 @ vs2"
      by (simp add: vs1_def vs2_def)
    have f1: "\<forall>v \<in> set vs1. \<exists>q. v = Num (Fin q)"
      unfolding vs1_def using fin by (auto dest: in_set_takeD)
    have f2: "\<forall>v \<in> set vs2. \<exists>q. v = Num (Fin q)"
      unfolding vs2_def using fin by (auto dest: in_set_dropD)
    have fa: "\<forall>v \<in> set (vs1 @ [Num (Fin 0)] @ vs2). \<exists>q. v = Num (Fin q)"
      using f1 f2 by auto
    have "running_total Undefined (vs1 @ [Num (Fin 0)] @ vs2)
            = js_sum (vs1 @ [Num (Fin 0)] @ vs2)"
      by (rule running_undefined_sum[OF fa]) simp
    also have "\<dots> = js_sum (vs1 @ vs2)" by (rule sum_skip_zero[OF f1])
    finally show ?thesis using out unfolding all rest by simp
  qed
  have y0: "y_value R (D ! i) = Num (Fin 0)"
    if "(D ! i) (yAxis R) = Undefined \<or> no_leading_number ((D ! i) (yAxis R))"
    using y_value_no_number[of "D ! i" R] that by simp
  note pie' = pie[unfolded k_def]
  show ?thesis
    apply (rule exI[of _ c])
    apply (intro conjI impI)
    subgoal by (rule c)
    subgoal using bar by auto
    subgoal using y0 by blast
    subgoal using bar y0 by auto
    subgoal using pie' y0 by blast
    subgoal using pie' y0 by blast
    done
qed

theorem unparsable_cell_counts_zero_witness:
  "no_leading_number ((text_rows ! 1) ''sales'')
   \<and> (text_rows ! 2) ''region'' = Undefined
   \<and> (\<exists>c. aggregate text_rows (request ''bar'' ''region'' ''sales'') = Some c
          \<and> series_values c ! 1 = Num (Fin 0))
   \<and> (\<exists>c. aggregate text_rows (request ''bar'' ''region'' ''sales'') = Some c
          \<and> labels c ! 2 = Undefined)
   \<and> (\<exists>c. aggregate text_rows (request ''pie'' ''region'' ''sales'') = Some c
          \<and> count_list (labels c) (Str ''A'') = 1
          \<and> map_of (series_mapping c) (Str ''A'') = Some (Num (Fin 10)))"
proof -
  let ?Rb = "request ''bar'' ''region'' ''sales''"
  let ?Rp = "request ''pie'' ''region'' ''sales''"
  have ax: "xAxis ?Rb \<noteq> []" "yAxis ?Rb \<noteq> []" "xAxis ?Rp \<noteq> []" "yAxis ?Rp \<noteq> []"
    by (simp_all add: request_def)
  have ty: "cfg_type ?Rb \<noteq> ''pie''" "cfg_type ?Rp = ''pie''" by (simp_all add: request_def)
  have len: "1 < length text_rows" "2 < length text_rows" by (simp_all add: text_rows_def)
  have pf: "no_leading_number ((text_rows ! 1) ''sales'')"
    by (simp add: text_rows_def row_eval no_leading_number_def starts_with_number_def
        is_space_def is_digit_def)
  have pfb: "(text_rows ! 1) (yAxis ?Rb) = Undefined
             \<or> no_leading_number ((text_rows ! 1) (yAxis ?Rb))"
    using pf by (simp add: request_def)
  have pfp: "(text_rows ! 1) (yAxis ?Rp) = Undefined
             \<or> no_leading_number ((text_rows ! 1) (yAxis ?Rp))"
    using pf by (simp add: request_def)
  have ux: "(text_rows ! 2) ''region'' = Undefined"
    by (simp add: text_rows_def row_eval)
  have uxb: "cfg_type ?Rb \<noteq> ''pie'' \<and> (text_rows ! 2) (xAxis ?Rb) = Undefined"
    using ux by (simp add: request_def)
  have k: "x_key ?Rp (text_rows ! 1) = ''A''"
    by (simp add: text_rows_def row_eval x_key_def request_def)
  have np: "object_prototype (x_key ?Rp (text_rows ! 1)) = Undefined"
    unfolding k by (simp add: object_prototype_def proto_functions_def)
  have ys: "map (y_value ?Rp) text_rows = [Num (Fin 10), Num (Fin 0), Num (Fin 7)]"
    by (simp add: text_rows_def row_eval y_value_def request_def parseFloat_or_0_def
        parseFloat_def js_or_def parse_eval)
  have fin: "\<forall>r \<in> set text_rows. x_key ?Rp r = x_key ?Rp (text_rows ! 1) \<longrightarrow>
               (\<exists>q. y_value ?Rp r = Num (Fin q))"
  proof (intro ballI impI)
    fix r assume "r \<in> set text_rows"
    then have "y_value ?Rp r \<in> set (map (y_value ?Rp) text_rows)" by simp
    then show "\<exists>q. y_value ?Rp r = Num (Fin q)" unfolding ys by auto
  qed
  have rest: "js_sum (map (y_value ?Rp)
                (filter (\<lambda>r. x_key ?Rp r = x_key ?Rp (text_rows ! 1))
                   (take 1 text_rows @ drop (Suc 1) text_rows))) = Num (Fin 10)"
    unfolding k
    by (simp add: text_rows_def row_eval x_key_def y_value_def request_def
        parseFloat_or_0_def parseFloat_def js_or_def parse_eval js_sum_def)
  from unparsable_cell_counts_zero[OF ax(1,2) len(1)] pfb ty(1)
  have a: "\<exists>c. aggregate text_rows ?Rb = Some c \<and> series_values c ! 1 = Num (Fin 0)"
    by blast
  from unparsable_cell_counts_zero[OF ax(1,2) len(2)] uxb
  have b: "\<exists>c. aggregate text_rows ?Rb = Some c \<and> labels c ! 2 = Undefined"
    by blast
  from unparsable_cell_counts_zero[OF ax(3,4) len(1)] pfp ty(2) np fin
  have "\<exists>c. aggregate text_rows ?Rp = Some c
          \<and> count_list (labels c) (Str (x_key ?Rp (text_rows ! 1))) = 1
          \<and> map_of (series_mapping c) (Str (x_key ?Rp (text_rows ! 1)))
              = Some (js_sum (map (y_value ?Rp)
                  (filter (\<lambda>r. x_key ?Rp r = x_key ?Rp (text_rows ! 1))
                     (take 1 text_rows @ drop (Suc 1) text_rows))))"
    by blast
  then have c: "\<exists>c. aggregate text_rows ?Rp = Some c
          \<and> count_list (labels c) (Str ''A'') = 1
          \<and> map_of (series_mapping c) (Str ''A'') = Some (Num (Fin 10))"
    unfolding rest unfolding k .
  show ?thesis using pf ux a b c by blast
qed



end
